theory Spec2Isabelle
  imports Main "HOL-Library.AList" "HOL-Library.Multiset"
begin

section \<open>Airplane boarding simulation: the engine of final.py\<close>

text \<open>
  The embedding follows final.py. Python objects live in an explicit store: a
  passenger object is a reference (a natural number) into a heap of passenger
  records, so that object identity (dictionary keys, membership in
  \<^verbatim>\<open>moved_this_tick\<close> and in \<^verbatim>\<open>passed_occupants\<close>) is equality of references.
  Exceptions are values of the type \<open>error\<close>. The random module is not modelled:
  every random draw is an explicit argument.
\<close>

subsection \<open>Global parameters\<close>

abbreviation COLS :: int where "COLS \<equiv> 7"
abbreviation AISLE_COL :: int where "AISLE_COL \<equiv> 3"
abbreviation OVERHEAD_BIN_CAPACITY :: int where "OVERHEAD_BIN_CAPACITY \<equiv> 2"
abbreviation MAX_BAGS :: int where "MAX_BAGS \<equiv> 3"
abbreviation TICKS_FOR_OVERHEAD :: int where "TICKS_FOR_OVERHEAD \<equiv> 2"
abbreviation ENTRANCE_ROW :: int where "ENTRANCE_ROW \<equiv> - 1"

subsection \<open>Exceptions and list indexing\<close>

datatype error = IndexError | KeyError

text \<open>\<^verbatim>\<open>xs[i]\<close> of Python: an index below zero counts from the end, an index
  out of range raises IndexError.\<close>

definition norm_index :: "nat \<Rightarrow> int \<Rightarrow> nat option" where
  "norm_index n i =
     (if 0 \<le> i \<and> i < int n then Some (nat i)
      else if i < 0 \<and> - int n \<le> i then Some (nat (int n + i))
      else None)"

definition py_get :: "'a list \<Rightarrow> int \<Rightarrow> error + 'a" where
  "py_get xs i = (case norm_index (length xs) i of None \<Rightarrow> Inl IndexError | Some j \<Rightarrow> Inr (xs ! j))"

definition py_set :: "'a list \<Rightarrow> int \<Rightarrow> 'a \<Rightarrow> error + 'a list" where
  "py_set xs i v = (case norm_index (length xs) i of None \<Rightarrow> Inl IndexError | Some j \<Rightarrow> Inr (xs[j := v]))"

subsection \<open>Plane: the overhead bins\<close>

record plane =
  num_rows :: int
  overhead :: "int list list"

text \<open>\<^verbatim>\<open>Plane.__init__\<close>: \<^verbatim>\<open>[[0] * COLS for _ in range(num_rows)]\<close>.\<close>

definition Plane_init :: "int \<Rightarrow> plane" where
  "Plane_init n = \<lparr>num_rows = n, overhead = replicate (nat n) (replicate (nat COLS) 0)\<rparr>"

text \<open>The generator expression of \<^verbatim>\<open>can_stow_bag\<close>: the sum of \<^verbatim>\<open>r[c]\<close> over the
  columns \<^verbatim>\<open>c\<close> of \<^verbatim>\<open>range(COLS)\<close> other than the aisle.\<close>

fun row_total :: "int list \<Rightarrow> int list \<Rightarrow> error + int" where
  "row_total r [] = Inr 0"
| "row_total r (c # cs) =
     (if c \<noteq> AISLE_COL then
        (case py_get r c of
           Inl e \<Rightarrow> Inl e
         | Inr v \<Rightarrow> (case row_total r cs of Inl e \<Rightarrow> Inl e | Inr t \<Rightarrow> Inr (v + t)))
      else row_total r cs)"

definition can_stow_bag :: "plane \<Rightarrow> int \<Rightarrow> int \<Rightarrow> error + bool" where
  "can_stow_bag pl row bags_needed =
     (case py_get (overhead pl) row of
        Inl e \<Rightarrow> Inl e
      | Inr r \<Rightarrow>
          (case row_total r [0..COLS - 1] of
             Inl e \<Rightarrow> Inl e
           | Inr total_in_row \<Rightarrow>
               Inr (total_in_row + bags_needed \<le> 6 * OVERHEAD_BIN_CAPACITY)))"

text \<open>The loop of \<^verbatim>\<open>place_bags_in_bin\<close> over the columns still to visit: the row
  being filled and \<^verbatim>\<open>bags_left\<close> are the loop state; \<^verbatim>\<open>continue\<close> at the aisle,
  \<^verbatim>\<open>break\<close> once \<^verbatim>\<open>bags_left == 0\<close> after a placement.\<close>

fun place_loop :: "int list \<Rightarrow> int \<Rightarrow> int list \<Rightarrow> error + int list" where
  "place_loop r bags_left [] = Inr r"
| "place_loop r bags_left (c # cs) =
     (if c = AISLE_COL then place_loop r bags_left cs
      else
        (case py_get r c of
           Inl e \<Rightarrow> Inl e
         | Inr v \<Rightarrow>
             (let can_add = OVERHEAD_BIN_CAPACITY - v in
              if can_add > 0 then
                (let put_now = min can_add bags_left in
                 case py_set r c (v + put_now) of
                   Inl e \<Rightarrow> Inl e
                 | Inr r' \<Rightarrow>
                     (let bags_left' = bags_left - put_now in
                      if bags_left' = 0 then Inr r' else place_loop r' bags_left' cs))
              else place_loop r bags_left cs)))"

definition place_bags_in_bin :: "plane \<Rightarrow> int \<Rightarrow> int \<Rightarrow> error + plane" where
  "place_bags_in_bin pl row bags =
     (case py_get (overhead pl) row of
        Inl e \<Rightarrow> Inl e
      | Inr r \<Rightarrow>
          (case place_loop r bags [0..COLS - 1] of
             Inl e \<Rightarrow> Inl e
           | Inr r' \<Rightarrow>
               (case py_set (overhead pl) row r' of
                  Inl e \<Rightarrow> Inl e
                | Inr ov \<Rightarrow> Inr (pl\<lparr>overhead := ov\<rparr>))))"

subsection \<open>Passengers\<close>

datatype pstate = Queue | Walking | Stowing | Looking_bin | Move_to_seat | Done

text \<open>The seat letters \<^verbatim>\<open>'A'\<close> .. \<^verbatim>\<open>'F'\<close>, the keys of the table of \<^verbatim>\<open>letter_to_col\<close>.\<close>

datatype letter = LA | LB | LC | LD | LE | LF

fun letter_to_col :: "letter \<Rightarrow> int" where
  "letter_to_col LA = 0"
| "letter_to_col LB = 1"
| "letter_to_col LC = 2"
| "letter_to_col LD = 4"
| "letter_to_col LE = 5"
| "letter_to_col LF = 6"

type_synonym ref = nat

record passenger =
  seat_row :: int
  seat_letter :: letter
  bags_count :: int
  overhead_bags :: int
  x :: int
  y :: int
  state :: pstate
  ticks_stowing :: int
  delay_counter :: int
  passed_occupants :: "ref set"
  target_col :: int
  queue_index :: int
  is_late :: bool

type_synonym heap = "ref \<Rightarrow> passenger"

text \<open>\<^verbatim>\<open>Passenger.__init__\<close>.\<close>

definition Passenger_init :: "int \<Rightarrow> letter \<Rightarrow> int \<Rightarrow> int \<Rightarrow> bool \<Rightarrow> passenger" where
  "Passenger_init r l bags qi late =
     \<lparr>seat_row = r, seat_letter = l, bags_count = bags, overhead_bags = max 0 (bags - 1),
      x = AISLE_COL, y = ENTRANCE_ROW, state = Queue, ticks_stowing = 0, delay_counter = 0,
      passed_occupants = {}, target_col = letter_to_col l, queue_index = qi, is_late = late\<rparr>"

text \<open>\<^verbatim>\<open>find_passenger_at(row, col, passengers)\<close>: the list of passenger objects is a
  list of references read through the heap; the result is the reference found.\<close>

fun find_passenger_at :: "int \<Rightarrow> int \<Rightarrow> heap \<Rightarrow> ref list \<Rightarrow> ref option" where
  "find_passenger_at row col h [] = None"
| "find_passenger_at row col h (p # ps) =
     (if y (h p) = row \<and> x (h p) = col then
        (if state (h p) \<noteq> Done then Some p
         else if state (h p) = Done \<and> col = AISLE_COL then Some p
         else find_passenger_at row col h ps)
      else find_passenger_at row col h ps)"

definition is_tile_occupied :: "int \<Rightarrow> int \<Rightarrow> heap \<Rightarrow> ref list \<Rightarrow> bool" where
  "is_tile_occupied row col h ps = (find_passenger_at row col h ps \<noteq> None)"

subsection \<open>The passenger state machine\<close>

text \<open>The plan dictionary of \<^verbatim>\<open>propose_action\<close>.\<close>

record plan =
  plan_x :: int
  plan_y :: int
  plan_state :: pstate
  plan_ticks_stowing :: int
  plan_delay_counter :: int
  plan_passed_occupants :: "ref set"

text \<open>The dictionary literal that opens \<^verbatim>\<open>propose_action\<close>, and that
  \<^verbatim>\<open>do_substep\<close> writes again for a loser: the current values of the mutable
  fields.\<close>

definition current_plan :: "passenger \<Rightarrow> plan" where
  "current_plan me =
     \<lparr>plan_x = x me, plan_y = y me, plan_state = state me,
      plan_ticks_stowing = ticks_stowing me, plan_delay_counter = delay_counter me,
      plan_passed_occupants = passed_occupants me\<rparr>"

text \<open>\<^verbatim>\<open>leaving_map\<close> is a dictionary from cells \<^verbatim>\<open>(row, col)\<close> to \<^verbatim>\<open>True\<close>;
  \<open>lm_get\<close> is \<^verbatim>\<open>leaving_map.get(cell, False)\<close>.\<close>

type_synonym leaving_map = "(int \<times> int) \<rightharpoonup> bool"

definition lm_get :: "leaving_map \<Rightarrow> int \<times> int \<Rightarrow> bool" where
  "lm_get lm cell = (case lm cell of None \<Rightarrow> False | Some b \<Rightarrow> b)"

text \<open>\<^verbatim>\<open>propose_action(self, plane, passengers_in_aisle, leaving_map, current_tick)\<close>,
  one definition per state. The argument \<^verbatim>\<open>current_tick\<close> is never read and is left
  out. The method returns the plan; since it also writes to the plane and to
  \<^verbatim>\<open>self.overhead_bags\<close> (in the state stowing), the model returns the plane and
  the heap with it.\<close>

definition propose_queue ::
    "plane \<Rightarrow> heap \<Rightarrow> ref list \<Rightarrow> leaving_map \<Rightarrow> ref \<Rightarrow> error + (plan \<times> plane \<times> heap)" where
  "propose_queue pl h aisle lm self =
     (let me = h self; plan = current_plan me in
      if list_ex (\<lambda>other. state (h other) = Queue \<and> queue_index (h other) < queue_index me) aisle
      then Inr (plan, pl, h)
      else if \<not> is_tile_occupied 0 AISLE_COL h aisle
      then Inr (plan\<lparr>plan_y := 0, plan_state := Walking\<rparr>, pl, h)
      else if lm_get lm (0, AISLE_COL)
      then Inr (plan\<lparr>plan_y := 0, plan_state := Walking\<rparr>, pl, h)
      else Inr (plan, pl, h))"

definition propose_walking ::
    "plane \<Rightarrow> heap \<Rightarrow> ref list \<Rightarrow> leaving_map \<Rightarrow> ref \<Rightarrow> error + (plan \<times> plane \<times> heap)" where
  "propose_walking pl h aisle lm self =
     (let me = h self; plan = current_plan me in
      if y me < seat_row me then
        (let next_y = y me + 1 in
         case find_passenger_at next_y AISLE_COL h aisle of
           None \<Rightarrow> Inr (plan\<lparr>plan_y := next_y\<rparr>, pl, h)
         | Some occ \<Rightarrow>
             if lm_get lm (next_y, AISLE_COL) then Inr (plan\<lparr>plan_y := next_y\<rparr>, pl, h)
             else Inr (plan, pl, h))
      else if overhead_bags me > 0 then
        (case can_stow_bag pl (y me) (overhead_bags me) of
           Inl e \<Rightarrow> Inl e
         | Inr fits \<Rightarrow>
             if fits
             then Inr (plan\<lparr>plan_state := Stowing, plan_ticks_stowing := TICKS_FOR_OVERHEAD\<rparr>, pl, h)
             else Inr (plan\<lparr>plan_state := Looking_bin\<rparr>, pl, h))
      else Inr (plan\<lparr>plan_state := Move_to_seat\<rparr>, pl, h))"

definition propose_stowing ::
    "plane \<Rightarrow> heap \<Rightarrow> ref list \<Rightarrow> leaving_map \<Rightarrow> ref \<Rightarrow> error + (plan \<times> plane \<times> heap)" where
  "propose_stowing pl h aisle lm self =
     (let me = h self; plan = current_plan me in
      if ticks_stowing me > 0 then
        (let plan1 = plan\<lparr>plan_ticks_stowing := ticks_stowing me - 1\<rparr> in
         if plan_ticks_stowing plan1 = 0 then
           (case place_bags_in_bin pl (y me) (overhead_bags me) of
              Inl e \<Rightarrow> Inl e
            | Inr pl' \<Rightarrow>
                Inr (plan1\<lparr>plan_state := Move_to_seat\<rparr>, pl', h(self := me\<lparr>overhead_bags := 0\<rparr>)))
         else Inr (plan1, pl, h))
      else Inr (plan, pl, h))"

definition propose_looking_bin ::
    "plane \<Rightarrow> heap \<Rightarrow> ref list \<Rightarrow> leaving_map \<Rightarrow> ref \<Rightarrow> error + (plan \<times> plane \<times> heap)" where
  "propose_looking_bin pl h aisle lm self =
     (let me = h self; plan = current_plan me in
      if y me < num_rows pl - 1 then
        (let next_y = y me + 1 in
         case find_passenger_at next_y AISLE_COL h aisle of
           None \<Rightarrow>
             (case can_stow_bag pl next_y (overhead_bags me) of
                Inl e \<Rightarrow> Inl e
              | Inr fits \<Rightarrow>
                  if fits
                  then Inr (plan\<lparr>plan_y := next_y, plan_state := Stowing,
                                 plan_ticks_stowing := TICKS_FOR_OVERHEAD\<rparr>, pl, h)
                  else Inr (plan\<lparr>plan_y := next_y\<rparr>, pl, h))
         | Some occ \<Rightarrow>
             if lm_get lm (next_y, AISLE_COL) then
               (case can_stow_bag pl next_y (overhead_bags me) of
                  Inl e \<Rightarrow> Inl e
                | Inr fits \<Rightarrow>
                    if fits
                    then Inr (plan\<lparr>plan_y := next_y, plan_state := Stowing,
                                   plan_ticks_stowing := TICKS_FOR_OVERHEAD\<rparr>, pl, h)
                    else Inr (plan\<lparr>plan_y := next_y\<rparr>, pl, h))
             else Inr (plan, pl, h))
      else Inr (plan\<lparr>plan_state := Move_to_seat\<rparr>, pl, h))"

definition propose_move_to_seat ::
    "plane \<Rightarrow> heap \<Rightarrow> ref list \<Rightarrow> leaving_map \<Rightarrow> ref \<Rightarrow> error + (plan \<times> plane \<times> heap)" where
  "propose_move_to_seat pl h aisle lm self =
     (let me = h self; plan = current_plan me in
      if delay_counter me > 0 then Inr (plan\<lparr>plan_delay_counter := delay_counter me - 1\<rparr>, pl, h)
      else if x me = target_col me then Inr (plan\<lparr>plan_state := Done\<rparr>, pl, h)
      else
        (let step = (if x me < target_col me then 1 else - 1);
             next_x = x me + step in
         case find_passenger_at (y me) next_x h aisle of
           Some occ \<Rightarrow>
             if state (h occ) = Done then
               (if occ \<notin> passed_occupants me then
                  Inr (plan\<lparr>plan_delay_counter := 1,
                            plan_passed_occupants := insert occ (passed_occupants me)\<rparr>, pl, h)
                else if lm_get lm (y me, next_x) then Inr (plan\<lparr>plan_x := next_x\<rparr>, pl, h)
                else Inr (plan, pl, h))
             else if lm_get lm (y me, next_x) then Inr (plan\<lparr>plan_x := next_x\<rparr>, pl, h)
             else Inr (plan, pl, h)
         | None \<Rightarrow> Inr (plan\<lparr>plan_x := next_x\<rparr>, pl, h)))"

definition propose_action ::
    "plane \<Rightarrow> heap \<Rightarrow> ref list \<Rightarrow> leaving_map \<Rightarrow> ref \<Rightarrow> error + (plan \<times> plane \<times> heap)" where
  "propose_action pl h aisle lm self =
     (if state (h self) = Done then Inr (current_plan (h self), pl, h)
      else if state (h self) = Queue then propose_queue pl h aisle lm self
      else if state (h self) = Walking then propose_walking pl h aisle lm self
      else if state (h self) = Stowing then propose_stowing pl h aisle lm self
      else if state (h self) = Looking_bin then propose_looking_bin pl h aisle lm self
      else if state (h self) = Move_to_seat then propose_move_to_seat pl h aisle lm self
      else Inr (current_plan (h self), pl, h))"

subsection \<open>The simulation: sub-steps and ticks\<close>

text \<open>The engine's part of the object \<^verbatim>\<open>Simulation\<close>: the plane, the heap of passenger
  objects, the two lists of passengers (as references) and the tick counters.\<close>

record sim =
  plane :: plane
  heap :: heap
  passengers_queue :: "ref list"
  passengers_in_aisle :: "ref list"
  tick_count :: int
  final_tick_count :: "int option"

text \<open>The two loops \<^verbatim>\<open>for p in cand_sorted: plans[p] = p.propose_action(...)\<close>. A
  dictionary is an association list in insertion order; \<open>AList.update\<close> is the
  assignment \<^verbatim>\<open>d[k] = v\<close>.\<close>

fun propose_all ::
    "plane \<Rightarrow> heap \<Rightarrow> ref list \<Rightarrow> leaving_map \<Rightarrow> ref list \<Rightarrow> (ref \<times> plan) list \<Rightarrow>
     error + ((ref \<times> plan) list \<times> plane \<times> heap)" where
  "propose_all pl h aisle lm [] plans = Inr (plans, pl, h)"
| "propose_all pl h aisle lm (p # ps) plans =
     (case propose_action pl h aisle lm p of
        Inl e \<Rightarrow> Inl e
      | Inr (plan, pl', h') \<Rightarrow> propose_all pl' h' aisle lm ps (AList.update p plan plans))"

text \<open>The loop that fills \<^verbatim>\<open>leaving_map\<close> from the draft plans.\<close>

fun build_leaving_map :: "heap \<Rightarrow> (ref \<times> plan) list \<Rightarrow> leaving_map \<Rightarrow> leaving_map" where
  "build_leaving_map h [] lm = lm"
| "build_leaving_map h ((p, plan) # rest) lm =
     (let oldpos = (y (h p), x (h p)); newpos = (plan_y plan, plan_x plan) in
      if oldpos \<noteq> newpos then build_leaving_map h rest (lm(oldpos \<mapsto> True))
      else build_leaving_map h rest lm)"

text \<open>The loop \<^verbatim>\<open>desired_positions.setdefault(np, []).append(p)\<close>.\<close>

fun build_desired ::
    "(ref \<times> plan) list \<Rightarrow> ((int \<times> int) \<times> ref list) list \<Rightarrow> ((int \<times> int) \<times> ref list) list" where
  "build_desired [] d = d"
| "build_desired ((p, plan) # rest) d =
     (let np = (plan_y plan, plan_x plan) in
      build_desired rest
        (AList.update np ((case map_of d np of None \<Rightarrow> [] | Some p_list \<Rightarrow> p_list) @ [p]) d))"

text \<open>The loop over \<^verbatim>\<open>srt[1:]\<close>, which holds every loser on its current fields.\<close>

fun hold_losers :: "heap \<Rightarrow> ref list \<Rightarrow> (ref \<times> plan) list \<Rightarrow> (ref \<times> plan) list" where
  "hold_losers h [] final_updates = final_updates"
| "hold_losers h (loser # rest) final_updates =
     hold_losers h rest (AList.update loser (current_plan (h loser)) final_updates)"

text \<open>The loop over \<^verbatim>\<open>desired_positions.items()\<close> that builds \<^verbatim>\<open>final_updates\<close>.\<close>

fun resolve ::
    "heap \<Rightarrow> (ref \<times> plan) list \<Rightarrow> ((int \<times> int) \<times> ref list) list \<Rightarrow> (ref \<times> plan) list \<Rightarrow>
     error + (ref \<times> plan) list" where
  "resolve h final_plans [] final_updates = Inr final_updates"
| "resolve h final_plans ((pos, p_list) # rest) final_updates =
     (if length p_list = 1 then
        (case map_of final_plans (hd p_list) of
           None \<Rightarrow> Inl KeyError
         | Some plan \<Rightarrow> resolve h final_plans rest (AList.update (hd p_list) plan final_updates))
      else
        (case sort_key (\<lambda>pp. queue_index (h pp)) p_list of
           [] \<Rightarrow> Inl IndexError
         | winner # losers \<Rightarrow>
             (case map_of final_plans winner of
                None \<Rightarrow> Inl KeyError
              | Some plan \<Rightarrow>
                  resolve h final_plans rest
                    (hold_losers h losers (AList.update winner plan final_updates)))))"

text \<open>The six assignments \<^verbatim>\<open>p.x = upd['x']\<close> ... \<^verbatim>\<open>p.passed_occupants = upd['passed_occupants']\<close>.\<close>

definition apply_plan :: "passenger \<Rightarrow> plan \<Rightarrow> passenger" where
  "apply_plan me upd =
     me\<lparr>x := plan_x upd, y := plan_y upd, state := plan_state upd,
        ticks_stowing := plan_ticks_stowing upd, delay_counter := plan_delay_counter upd,
        passed_occupants := plan_passed_occupants upd\<rparr>"

text \<open>The loop that applies \<^verbatim>\<open>final_updates\<close> to the passengers of \<^verbatim>\<open>cand_sorted\<close>.\<close>

fun apply_updates ::
    "(ref \<times> plan) list \<Rightarrow> ref list \<Rightarrow> heap \<Rightarrow> ref set \<Rightarrow> bool \<Rightarrow> error + (heap \<times> ref set \<times> bool)" where
  "apply_updates final_updates [] h moved_this_tick moved_anyone =
     Inr (h, moved_this_tick, moved_anyone)"
| "apply_updates final_updates (p # ps) h moved_this_tick moved_anyone =
     (case map_of final_updates p of
        None \<Rightarrow> Inl KeyError
      | Some upd \<Rightarrow>
          (let old_xy = (x (h p), y (h p));
               me = apply_plan (h p) upd in
           if (x me, y me) \<noteq> old_xy
           then apply_updates final_updates ps (h(p := me)) (insert p moved_this_tick) True
           else apply_updates final_updates ps (h(p := me)) moved_this_tick moved_anyone))"

text \<open>\<^verbatim>\<open>Simulation.do_substep(moved_this_tick)\<close>: the result is \<^verbatim>\<open>moved_anyone\<close>, the
  simulation and the set \<^verbatim>\<open>moved_this_tick\<close> after the call.\<close>

definition do_substep :: "sim \<Rightarrow> ref set \<Rightarrow> error + (bool \<times> sim \<times> ref set)" where
  "do_substep s moved_this_tick =
     (let candidates = filter (\<lambda>p. p \<notin> moved_this_tick) (passengers_in_aisle s) in
      if candidates = [] then Inr (False, s, moved_this_tick)
      else
        (let cand_sorted = sort_key (\<lambda>pp. queue_index (heap s pp)) candidates in
         case propose_all (plane s) (heap s) (passengers_in_aisle s) Map.empty cand_sorted [] of
           Inl e \<Rightarrow> Inl e
         | Inr (draft_plans, pl1, h1) \<Rightarrow>
             (let leaving_map = build_leaving_map h1 draft_plans Map.empty in
              case propose_all pl1 h1 (passengers_in_aisle s) leaving_map cand_sorted [] of
                Inl e \<Rightarrow> Inl e
              | Inr (final_plans, pl2, h2) \<Rightarrow>
                  (let desired_positions = build_desired final_plans [] in
                   case resolve h2 final_plans desired_positions [] of
                     Inl e \<Rightarrow> Inl e
                   | Inr final_updates \<Rightarrow>
                       (case apply_updates final_updates cand_sorted h2 moved_this_tick False of
                          Inl e \<Rightarrow> Inl e
                        | Inr (h3, moved_this_tick', moved_anyone) \<Rightarrow>
                            Inr (moved_anyone, s\<lparr>plane := pl2, heap := h3\<rparr>, moved_this_tick'))))))"

text \<open>The first half of \<^verbatim>\<open>do_substep\<close> on its own: \<^verbatim>\<open>cand_sorted\<close>, and the
  dictionary \<^verbatim>\<open>final_plans\<close> with the plane and the heap as the two passes of
  \<^verbatim>\<open>propose_action\<close> leave them.\<close>

definition cand_sorted :: "sim \<Rightarrow> ref set \<Rightarrow> ref list" where
  "cand_sorted s moved_this_tick =
     sort_key (\<lambda>pp. queue_index (heap s pp))
       (filter (\<lambda>p. p \<notin> moved_this_tick) (passengers_in_aisle s))"

definition final_proposals :: "sim \<Rightarrow> ref set \<Rightarrow> error + ((ref \<times> plan) list \<times> plane \<times> heap)" where
  "final_proposals s moved_this_tick =
     (case propose_all (plane s) (heap s) (passengers_in_aisle s) Map.empty
             (cand_sorted s moved_this_tick) [] of
        Inl e \<Rightarrow> Inl e
      | Inr (draft_plans, pl1, h1) \<Rightarrow>
          propose_all pl1 h1 (passengers_in_aisle s)
            (build_leaving_map h1 draft_plans Map.empty) (cand_sorted s moved_this_tick) [])"

text \<open>The admission loop of \<^verbatim>\<open>update_in_parallel\<close>.\<close>

fun admit :: "heap \<Rightarrow> ref list \<Rightarrow> ref list \<Rightarrow> ref list" where
  "admit h [] aisle = aisle"
| "admit h (p # ps) aisle =
     (if state (h p) \<noteq> Done \<and> p \<notin> set aisle then admit h ps (aisle @ [p]) else admit h ps aisle)"

text \<open>The loop \<^verbatim>\<open>for _ in range(max_substeps)\<close>; the first argument counts the rounds
  that are left.\<close>

fun substeps :: "nat \<Rightarrow> sim \<Rightarrow> ref set \<Rightarrow> error + sim" where
  "substeps 0 s moved_this_tick = Inr s"
| "substeps (Suc n) s moved_this_tick =
     (case do_substep s moved_this_tick of
        Inl e \<Rightarrow> Inl e
      | Inr (any_move, s', moved_this_tick') \<Rightarrow>
          if \<not> any_move then Inr s' else substeps n s' moved_this_tick')"

definition all_done :: "sim \<Rightarrow> bool" where
  "all_done s = list_all (\<lambda>p. state (heap s p) = Done) (passengers_queue s)"

abbreviation max_substeps :: nat where "max_substeps \<equiv> 10"

text \<open>\<^verbatim>\<open>Simulation.update_in_parallel()\<close>: one tick.\<close>

definition update_in_parallel :: "sim \<Rightarrow> error + sim" where
  "update_in_parallel s =
     (let s1 = (if all_done s \<and> final_tick_count s = None
                then s\<lparr>final_tick_count := Some (tick_count s)\<rparr> else s);
          s2 = (if \<not> all_done s then s1\<lparr>tick_count := tick_count s1 + 1\<rparr> else s1);
          s3 = s2\<lparr>passengers_in_aisle :=
                    admit (heap s2) (passengers_queue s2) (passengers_in_aisle s2)\<rparr> in
      case substeps max_substeps s3 {} of
        Inl e \<Rightarrow> Inl e
      | Inr s4 \<Rightarrow>
          Inr (s4\<lparr>passengers_in_aisle :=
                    filter (\<lambda>p. state (heap s4 p) \<noteq> Done) (passengers_in_aisle s4)\<rparr>))"

text \<open>The engine's part of \<^verbatim>\<open>Simulation.__init__\<close>, from the row count and the queue
  that \<^verbatim>\<open>apply_late_arrivals\<close> returned: the passenger at position \<open>i\<close> of the queue is
  the object of reference \<open>i\<close>. The heap holds no other object; a reference beyond the
  queue is never followed, and reads as a passenger that is already seated.\<close>

definition heap_of :: "passenger list \<Rightarrow> heap" where
  "heap_of ps i = (if i < length ps then ps ! i else (Passenger_init 0 LA 0 0 False)\<lparr>state := Done\<rparr>)"

definition Simulation_init :: "int \<Rightarrow> passenger list \<Rightarrow> sim" where
  "Simulation_init n ps =
     \<lparr>plane = Plane_init n, heap = heap_of ps, passengers_queue = [0..<length ps],
      passengers_in_aisle = [], tick_count = 0, final_tick_count = None\<rparr>"

text \<open>\<open>ticks k s\<close>: \<^verbatim>\<open>update_in_parallel\<close> called \<open>k\<close> times, as the loop of
  \<^verbatim>\<open>Simulation.run\<close> does.\<close>

fun ticks :: "nat \<Rightarrow> sim \<Rightarrow> error + sim" where
  "ticks 0 s = Inr s"
| "ticks (Suc k) s = (case update_in_parallel s of Inl e \<Rightarrow> Inl e | Inr s' \<Rightarrow> ticks k s')"

subsection \<open>Late arrivals\<close>

text \<open>\<^verbatim>\<open>apply_late_arrivals(base_passengers, late_percent, late_immediate)\<close>. The
  function reads the random module; the model takes what it draws as arguments:
  \<open>late_count\<close> is the value of \<^verbatim>\<open>int(n * late_percent / 100.0)\<close>, \<open>late_indices\<close> the
  list returned by \<^verbatim>\<open>random.sample(indices, late_count)\<close>, \<open>shuffle\<close> the permutation
  applied by \<^verbatim>\<open>random.shuffle\<close>, and \<open>draws\<close> the successive values of
  \<^verbatim>\<open>random.randint(0, max_delay)\<close>. The loop \<^verbatim>\<open>while True\<close> of
  \<^verbatim>\<open>get_unique_delay\<close> ends at the first draw that is not in \<^verbatim>\<open>used_delays\<close>; the
  result \<open>None\<close> says that it has not ended within the draws given.\<close>

text \<open>The loop \<^verbatim>\<open>for i in late_indices: base_passengers[i].is_late = True\<close>.\<close>

fun mark_late :: "passenger list \<Rightarrow> nat list \<Rightarrow> passenger list" where
  "mark_late ps [] = ps"
| "mark_late ps (i # rest) = mark_late (ps[i := (ps ! i)\<lparr>is_late := True\<rparr>]) rest"

text \<open>The loops \<^verbatim>\<open>for i, p in enumerate(new_list): p.queue_index = i\<close>.\<close>

fun renumber :: "nat \<Rightarrow> passenger list \<Rightarrow> passenger list" where
  "renumber i [] = []"
| "renumber i (p # ps) = p\<lparr>queue_index := int i\<rparr> # renumber (Suc i) ps"

fun get_unique_delay :: "int list \<Rightarrow> int set \<Rightarrow> (int \<times> int list \<times> int set) option" where
  "get_unique_delay [] used_delays = None"
| "get_unique_delay (d # draws) used_delays =
     (if d \<notin> used_delays then Some (d, draws, insert d used_delays)
      else get_unique_delay draws used_delays)"

text \<open>The loop that builds \<^verbatim>\<open>passenger_arr\<close>, a list of triples
  \<^verbatim>\<open>(p.queue_index, extra, p)\<close>.\<close>

fun assign_offsets ::
    "passenger list \<Rightarrow> int list \<Rightarrow> int set \<Rightarrow> (int \<times> int \<times> passenger) list \<Rightarrow>
     (int \<times> int \<times> passenger) list option" where
  "assign_offsets [] draws used_delays passenger_arr = Some passenger_arr"
| "assign_offsets (p # ps) draws used_delays passenger_arr =
     (if is_late p then
        (case get_unique_delay draws used_delays of
           None \<Rightarrow> None
         | Some (extra, draws', used_delays') \<Rightarrow>
             assign_offsets ps draws' used_delays' (passenger_arr @ [(queue_index p, extra, p)]))
      else assign_offsets ps draws used_delays (passenger_arr @ [(queue_index p, 0, p)]))"

text \<open>The sort key \<^verbatim>\<open>lambda x: x[0] + x[1]\<close>.\<close>

definition sort_key_of :: "int \<times> int \<times> passenger \<Rightarrow> int" where
  "sort_key_of e = fst e + fst (snd e)"

definition apply_late_arrivals ::
    "passenger list \<Rightarrow> int \<Rightarrow> nat list \<Rightarrow> (passenger list \<Rightarrow> passenger list) \<Rightarrow> int list \<Rightarrow> bool \<Rightarrow>
     passenger list option" where
  "apply_late_arrivals base_passengers late_count late_indices shuffle draws late_immediate =
     (if late_count \<le> 0 then Some base_passengers
      else
        (let marked = mark_late base_passengers late_indices in
         if \<not> late_immediate then
           (let normal_pass = filter (\<lambda>p. \<not> is_late p) marked;
                late_pass = shuffle (filter is_late marked) in
            Some (renumber 0 (normal_pass @ late_pass)))
         else
           (case assign_offsets marked draws {} [] of
              None \<Rightarrow> None
            | Some passenger_arr \<Rightarrow>
                Some (renumber 0 (map (\<lambda>e. snd (snd e)) (sort_key sort_key_of passenger_arr))))))"

section \<open>Properties of the overhead bins\<close>

text \<open>A row of bins is well formed when it has the \<open>COLS\<close> columns that
  \<^verbatim>\<open>Plane.__init__\<close> gives it and every count lies between 0 and the capacity.\<close>

definition row_ok :: "int list \<Rightarrow> bool" where
  "row_ok r = (length r = nat COLS \<and> list_all (\<lambda>v. 0 \<le> v \<and> v \<le> OVERHEAD_BIN_CAPACITY) r)"

definition bins_ok :: "plane \<Rightarrow> bool" where
  "bins_ok pl = list_all row_ok (overhead pl)"

lemma py_get_Inr: "py_get xs i = Inr v \<Longrightarrow> \<exists>j < length xs. norm_index (length xs) i = Some j \<and> v = xs ! j"
  by (auto simp: py_get_def norm_index_def split: option.splits if_splits)

lemma py_set_Inr: "py_set xs i v = Inr ys \<Longrightarrow> \<exists>j < length xs. norm_index (length xs) i = Some j \<and> ys = xs[j := v]"
  by (auto simp: py_set_def norm_index_def split: option.splits if_splits)

lemma row_ok_update: "row_ok r \<Longrightarrow> 0 \<le> v \<Longrightarrow> v \<le> 2 \<Longrightarrow> row_ok (r[j := v])"
  by (auto simp: row_ok_def list_all_iff dest!: set_update_subset_insert[THEN subsetD])

lemma row_ok_nth: "row_ok r \<Longrightarrow> j < length r \<Longrightarrow> 0 \<le> r ! j \<and> r ! j \<le> 2"
  by (auto simp: row_ok_def list_all_iff)

lemma place_loop_ok:
  "row_ok r \<Longrightarrow> 0 \<le> bags \<Longrightarrow> place_loop r bags cs = Inr r' \<Longrightarrow> row_ok r'"
proof (induction cs arbitrary: r bags)
  case Nil
  then show ?case by simp
next
  case (Cons c cs)
  show ?case
  proof (cases "c = AISLE_COL")
    case True
    with Cons show ?thesis by simp
  next
    case False
    with Cons.prems obtain v where v: "py_get r c = Inr v"
      by (auto split: sum.splits)
    then obtain j where j: "j < length r" "v = r ! j" by (auto dest: py_get_Inr)
    with Cons.prems(1) have vb: "0 \<le> v" "v \<le> 2" using row_ok_nth by auto
    show ?thesis
    proof (cases "v < 2")
      case True
      show ?thesis
      proof (cases "bags \<le> 2 - v")
        case le: True
        with Cons.prems(3) False v True have "py_set r c (v + bags) = Inr r'"
          by (auto simp: Let_def min_def split: sum.splits if_splits)
        then obtain k where "r' = r[k := v + bags]" by (auto dest: py_set_Inr)
        with Cons.prems(1,2) vb le show ?thesis by (auto intro!: row_ok_update)
      next
        case gt: False
        with Cons.prems(3) False v True obtain r1 where r1: "py_set r c 2 = Inr r1"
          and rec: "place_loop r1 (bags - (2 - v)) cs = Inr r'"
          by (auto simp: Let_def min_def split: sum.splits if_splits)
        from r1 obtain k where "r1 = r[k := 2]" by (auto dest: py_set_Inr)
        with Cons.prems(1) have "row_ok r1" by (auto intro!: row_ok_update)
        moreover from gt have "0 \<le> bags - (2 - v)" by simp
        ultimately show ?thesis using Cons.IH rec by blast
      qed
    next
      case F1: False
      with Cons.prems False v have "place_loop r bags cs = Inr r'" by (simp add: Let_def)
      with Cons.IH Cons.prems show ?thesis by blast
    qed
  qed
qed

lemma place_bags_ok:
  assumes "bins_ok pl" "0 \<le> bags" "place_bags_in_bin pl row bags = Inr pl'"
  shows "bins_ok pl' \<and> num_rows pl' = num_rows pl \<and> length (overhead pl') = length (overhead pl)"
proof -
  from assms(3) obtain r r' ov where r: "py_get (overhead pl) row = Inr r"
    and r': "place_loop r bags [0..COLS - 1] = Inr r'"
    and ov: "py_set (overhead pl) row r' = Inr ov" and pl': "pl' = pl\<lparr>overhead := ov\<rparr>"
    by (auto simp: place_bags_in_bin_def split: sum.splits)
  from r obtain j where "j < length (overhead pl)" "r = overhead pl ! j" by (auto dest: py_get_Inr)
  with assms(1) have "row_ok r" by (simp add: bins_ok_def list_all_length)
  with r' assms(2) have "row_ok r'" using place_loop_ok by blast
  moreover from ov obtain k where "ov = (overhead pl)[k := r']" by (auto dest: py_set_Inr)
  ultimately show ?thesis using assms(1) pl'
    by (auto simp: bins_ok_def list_all_iff dest!: set_update_subset_insert[THEN subsetD])
qed


fun place_calls :: "plane \<Rightarrow> (int \<times> int) list \<Rightarrow> plane" where
  "place_calls pl [] = pl"
| "place_calls pl ((row, bags) # cs) =
     (case place_bags_in_bin pl row bags of
        Inl e \<Rightarrow> place_calls pl cs
      | Inr pl' \<Rightarrow> place_calls pl' cs)"

definition bags_in_row :: "plane \<Rightarrow> int \<Rightarrow> error + int" where
  "bags_in_row pl row =
     (case py_get (overhead pl) row of Inl e \<Rightarrow> Inl e | Inr r \<Rightarrow> row_total r [0..COLS - 1])"

lemma upto_06: "[0..6::int] = [0,1,2,3,4,5,6]"
  by (simp add: upto.simps)

lemma py_get_nat: "j < length xs \<Longrightarrow> py_get xs (int j) = Inr (xs ! j)"
  by (simp add: py_get_def norm_index_def)

lemma py_set_nat: "j < length xs \<Longrightarrow> py_set xs (int j) v = Inr (xs[j := v])"
  by (simp add: py_set_def norm_index_def)

lemma row_total_sum:
  "\<forall>c\<in>set cs. 0 \<le> c \<and> c < int (length r) \<Longrightarrow>
   row_total r cs = Inr (\<Sum>c\<leftarrow>cs. if c = AISLE_COL then 0 else r ! nat c)"
proof (induction cs)
  case Nil
  then show ?case by simp
next
  case (Cons c cs)
  then have "nat c < length r" by (simp add: nat_less_iff)
  then have "py_get r c = Inr (r ! nat c)"
    using py_get_nat[of "nat c" r] Cons.prems by simp
  with Cons show ?case by simp
qed

lemma sum_upd_notin:
  "int j \<notin> set cs \<Longrightarrow> \<forall>c\<in>set cs. 0 \<le> c \<Longrightarrow>
   (\<Sum>c\<leftarrow>cs. if c = AISLE_COL then 0 else f (r[j := v] ! nat c)) =
   (\<Sum>c\<leftarrow>cs. if c = AISLE_COL then 0 else f (r ! nat c))"
proof (induction cs)
  case Nil
  then show ?case by simp
next
  case (Cons c cs)
  then have "nat c \<noteq> j" by auto
  with Cons show ?case by simp
qed

lemma place_loop_total:
  "row_ok r \<Longrightarrow> 0 \<le> bags \<Longrightarrow> distinct cs \<Longrightarrow> \<forall>c\<in>set cs. 0 \<le> c \<and> c < COLS \<Longrightarrow>
   \<exists>r'. place_loop r bags cs = Inr r' \<and> row_ok r' \<and>
     (\<forall>j. int j \<notin> set cs \<longrightarrow> r' ! j = r ! j) \<and>
     (\<Sum>c\<leftarrow>cs. if c = AISLE_COL then 0 else r' ! nat c) =
     (\<Sum>c\<leftarrow>cs. if c = AISLE_COL then 0 else r ! nat c) +
       min bags (\<Sum>c\<leftarrow>cs. if c = AISLE_COL then 0 else OVERHEAD_BIN_CAPACITY - r ! nat c)"
proof (induction cs arbitrary: r bags)
  case Nil
  then show ?case by simp
next
  case (Cons c cs)
  let ?S = "\<lambda>r. (\<Sum>c\<leftarrow>cs. if c = AISLE_COL then 0 else r ! nat c)"
  let ?F = "\<lambda>r. (\<Sum>c\<leftarrow>cs. if c = AISLE_COL then 0 else OVERHEAD_BIN_CAPACITY - r ! nat c)"
  have len: "length r = 7" using Cons.prems(1) by (simp add: row_ok_def)
  have cr: "0 \<le> c" "c < 7" "c \<notin> set cs" "distinct cs" "\<forall>c\<in>set cs. 0 \<le> c \<and> c < COLS"
    using Cons.prems(3,4) by auto
  have Fnn: "0 \<le> ?F r'" if "row_ok r'" for r'
  proof -
    have "\<forall>c\<in>set cs. 0 \<le> (if c = AISLE_COL then 0 else OVERHEAD_BIN_CAPACITY - r' ! nat c)"
      using that cr(5) row_ok_nth[of r'] by (auto simp: row_ok_def)
    then show ?thesis by (intro sum_list_nonneg) auto
  qed
  show ?case
  proof (cases "c = AISLE_COL")
    case True
    with Cons.IH[OF Cons.prems(1,2) cr(4,5)] show ?thesis by auto
  next
    case False
    have g: "py_get r c = Inr (r ! nat c)" using py_get_nat[of "nat c" r] cr len by simp
    have vb: "0 \<le> r ! nat c" "r ! nat c \<le> 2" using row_ok_nth[of r "nat c"] Cons.prems(1) cr len by auto
    show ?thesis
    proof (cases "r ! nat c < 2")
      case full: False
      with vb have eq2: "r ! nat c = 2" by simp
      from Cons.IH[OF Cons.prems(1,2) cr(4,5)] obtain r' where
        r': "place_loop r bags cs = Inr r'" "row_ok r'" "\<forall>j. int j \<notin> set cs \<longrightarrow> r' ! j = r ! j"
            "?S r' = ?S r + min bags (?F r)" by blast
      from r'(3) cr have "r' ! nat c = r ! nat c" by simp
      with r' False g full eq2 show ?thesis by (auto simp: Let_def)
    next
      case room: True
      show ?thesis
      proof (cases "bags \<le> 2 - r ! nat c")
        case le: True
        let ?r1 = "r[nat c := r ! nat c + bags]"
        have s: "py_set r c (r ! nat c + bags) = Inr ?r1" using py_set_nat[of "nat c" r] cr len by simp
        have pl: "place_loop r bags (c # cs) = Inr ?r1"
          using False g room le s by (auto simp: Let_def min_def)
        have ok1: "row_ok ?r1" using Cons.prems(1,2) vb le by (auto intro!: row_ok_update)
        have S1: "?S ?r1 = ?S r" using sum_upd_notin[of "nat c" cs "\<lambda>v. v" r] cr by simp
        have "min bags (2 - r ! nat c + ?F r) = bags" using le Fnn[OF Cons.prems(1)] by simp
        with pl ok1 S1 False cr len show ?thesis by (auto simp: nth_list_update)
      next
        case gt: False
        let ?r1 = "r[nat c := 2]"
        let ?b = "bags - (2 - r ! nat c)"
        have s: "py_set r c 2 = Inr ?r1" using py_set_nat[of "nat c" r] cr len by simp
        have pl: "place_loop r bags (c # cs) = place_loop ?r1 ?b cs"
          using False g room gt s by (auto simp: Let_def min_def)
        have ok1: "row_ok ?r1" using Cons.prems(1) by (auto intro!: row_ok_update)
        have b0: "0 \<le> ?b" using gt by simp
        from Cons.IH[OF ok1 b0 cr(4,5)] obtain r' where
          r': "place_loop ?r1 ?b cs = Inr r'" "row_ok r'" "\<forall>j. int j \<notin> set cs \<longrightarrow> r' ! j = ?r1 ! j"
              "?S r' = ?S ?r1 + min ?b (?F ?r1)" by blast
        have S1: "?S ?r1 = ?S r" using sum_upd_notin[of "nat c" cs "\<lambda>v. v" r] cr by simp
        have F1: "?F ?r1 = ?F r" using sum_upd_notin[of "nat c" cs "\<lambda>v. 2 - v" r] cr by simp
        from r'(3) cr len have rc: "r' ! nat c = 2" by simp
        have other: "\<forall>j. int j \<notin> set (c # cs) \<longrightarrow> r' ! j = r ! j"
        proof (intro allI impI)
          fix j assume "int j \<notin> set (c # cs)"
          then have "j \<noteq> nat c" "int j \<notin> set cs" using cr(1) by auto
          with r'(3) show "r' ! j = r ! j" by simp
        qed
        have "r' ! nat c + ?S r' = r ! nat c + ?S r + min bags (2 - r ! nat c + ?F r)"
          using rc r'(4) S1 F1 gt by (simp add: min_def)
        with pl r'(1,2) other False show ?thesis by simp
      qed
    qed
  qed
qed

lemma bags_in_row_place:
  assumes "bins_ok pl" "0 \<le> bags" "bags_in_row pl row = Inr t"
  shows "\<exists>pl'. place_bags_in_bin pl row bags = Inr pl' \<and>
           bags_in_row pl' row = Inr (if t + bags \<le> 6 * OVERHEAD_BIN_CAPACITY then t + bags
                                       else 6 * OVERHEAD_BIN_CAPACITY) \<and>
           can_stow_bag pl row bags = Inr (t + bags \<le> 6 * OVERHEAD_BIN_CAPACITY)"
proof -
  let ?cs = "[0..COLS - 1]"
  from assms(3) obtain r where r: "py_get (overhead pl) row = Inr r" and t: "row_total r ?cs = Inr t"
    by (auto simp: bags_in_row_def split: sum.splits)
  from r obtain j where j: "j < length (overhead pl)" "norm_index (length (overhead pl)) row = Some j"
     "r = overhead pl ! j" by (auto dest: py_get_Inr)
  with assms(1) have ok: "row_ok r" by (simp add: bins_ok_def list_all_length)
  then have len: "length r = 7" by (simp add: row_ok_def)
  have cs: "distinct ?cs" "\<forall>c\<in>set ?cs. 0 \<le> c \<and> c < COLS" by auto
  from place_loop_total[OF ok assms(2) cs] obtain r' where
    r': "place_loop r bags ?cs = Inr r'" "row_ok r'"
        "(\<Sum>c\<leftarrow>?cs. if c = AISLE_COL then 0 else r' ! nat c) =
         (\<Sum>c\<leftarrow>?cs. if c = AISLE_COL then 0 else r ! nat c) +
           min bags (\<Sum>c\<leftarrow>?cs. if c = AISLE_COL then 0 else OVERHEAD_BIN_CAPACITY - r ! nat c)"
    by blast
  have len': "length r' = 7" using r'(2) by (simp add: row_ok_def)
  have tt: "t = (\<Sum>c\<leftarrow>?cs. if c = AISLE_COL then 0 else r ! nat c)"
    using row_total_sum[of ?cs r] len t by auto
  have t': "row_total r' ?cs = Inr (\<Sum>c\<leftarrow>?cs. if c = AISLE_COL then 0 else r' ! nat c)"
    using row_total_sum[of ?cs r'] len' by auto
  have free: "(\<Sum>c\<leftarrow>?cs. if c = AISLE_COL then 0 else OVERHEAD_BIN_CAPACITY - r ! nat c) = 12 - t"
    unfolding tt by (simp add: upto_06)
  have set: "py_set (overhead pl) row r' = Inr ((overhead pl)[j := r'])"
    using j by (simp add: py_set_def)
  have get': "py_get ((overhead pl)[j := r']) row = Inr r'"
    using j by (simp add: py_get_def)
  show ?thesis
    using r r' t t' tt free set get'
    by (auto simp: place_bags_in_bin_def bags_in_row_def can_stow_bag_def min_def)
qed

lemma bins_ok_init: "bins_ok (Plane_init n)"
  by (simp add: bins_ok_def Plane_init_def row_ok_def list_all_iff)

lemma place_calls_ok:
  "bins_ok pl \<Longrightarrow> \<forall>(row, bags)\<in>set calls. 0 \<le> bags \<Longrightarrow>
   bins_ok (place_calls pl calls) \<and> length (overhead (place_calls pl calls)) = length (overhead pl)"
proof (induction calls arbitrary: pl)
  case Nil
  then show ?case by simp
next
  case (Cons c calls)
  obtain row bags where c: "c = (row, bags)" by (cases c)
  with Cons.prems have b: "0 \<le> bags" and rest: "\<forall>(row, bags)\<in>set calls. 0 \<le> bags" by auto
  show ?case
  proof (cases "place_bags_in_bin pl row bags")
    case (Inl e)
    with c Cons.IH[OF Cons.prems(1) rest] show ?thesis by simp
  next
    case (Inr pl')
    from place_bags_ok[OF Cons.prems(1) b Inr] Cons.IH[of pl', OF _ rest] c Inr
    show ?thesis by simp
  qed
qed

lemma row_ok_total:
  assumes "row_ok r"
  shows "\<exists>t. row_total r [0..COLS - 1] = Inr t \<and> 0 \<le> t \<and> t \<le> 6 * OVERHEAD_BIN_CAPACITY"
proof -
  from assms have len: "length r = 7" by (simp add: row_ok_def)
  have b: "0 \<le> r ! j \<and> r ! j \<le> 2" if "j < 7" for j using row_ok_nth[OF assms, of j] len that by simp
  have "row_total r [0..COLS - 1] = Inr (\<Sum>c\<leftarrow>[0..COLS - 1]. if c = AISLE_COL then 0 else r ! nat c)"
    using row_total_sum[of "[0..COLS - 1]" r] len by auto
  moreover have "(\<Sum>c\<leftarrow>[0..COLS - 1]. if c = AISLE_COL then 0 else r ! nat c)
       = r ! 0 + r ! 1 + r ! 2 + r ! 4 + r ! 5 + r ! 6"
    by (simp add: upto_06)
  moreover have "0 \<le> r ! 0 + r ! 1 + r ! 2 + r ! 4 + r ! 5 + r ! 6"
     "r ! 0 + r ! 1 + r ! 2 + r ! 4 + r ! 5 + r ! 6 \<le> 12"
    using b[of 0] b[of 1] b[of 2] b[of 4] b[of 5] b[of 6] by simp_all
  ultimately show ?thesis by simp
qed

text \<open>
  Claim C10. Starting from the all-zero bins of \<^verbatim>\<open>Plane.__init__\<close>, after any sequence
  of \<^verbatim>\<open>place_bags_in_bin\<close> calls with nonnegative bag counts (whether or not
  \<^verbatim>\<open>can_stow_bag\<close> was asked first; a call that raises IndexError leaves the bins
  as they were), the plane still has its rows, every row its \<open>COLS\<close> columns, every
  count lies between 0 and \<open>OVERHEAD_BIN_CAPACITY\<close>, and the total of the non-aisle
  columns of a row is at most \<open>6 * OVERHEAD_BIN_CAPACITY\<close>: bags that do not fit are
  dropped.
\<close>

theorem place_bags_in_bin_within_capacity:
  assumes "\<forall>(row, bags)\<in>set calls. 0 \<le> bags"
  shows "length (overhead (place_calls (Plane_init n) calls)) = nat n \<and>
    (\<forall>r\<in>set (overhead (place_calls (Plane_init n) calls)).
       length r = nat COLS \<and>
       (\<forall>v\<in>set r. 0 \<le> v \<and> v \<le> OVERHEAD_BIN_CAPACITY) \<and>
       (\<exists>t. row_total r [0..COLS - 1] = Inr t \<and> t \<le> 6 * OVERHEAD_BIN_CAPACITY))"
proof -
  let ?pl = "place_calls (Plane_init n) calls"
  from place_calls_ok[OF bins_ok_init assms, of n]
  have ok: "bins_ok ?pl" and len: "length (overhead ?pl) = nat n"
    by (simp_all add: Plane_init_def)
  have "length r = nat COLS \<and> (\<forall>v\<in>set r. 0 \<le> v \<and> v \<le> OVERHEAD_BIN_CAPACITY) \<and>
       (\<exists>t. row_total r [0..COLS - 1] = Inr t \<and> t \<le> 6 * OVERHEAD_BIN_CAPACITY)"
    if "r \<in> set (overhead ?pl)" for r
  proof -
    from ok that have r: "row_ok r" by (simp add: bins_ok_def list_all_iff)
    with row_ok_total[OF r] show ?thesis by (auto simp: row_ok_def list_all_iff)
  qed
  with len show ?thesis by blast
qed

lemma place13: "place_bags_in_bin (Plane_init 1) 0 13 = Inr \<lparr>num_rows = 1, overhead = [[2, 2, 2, 0, 2, 2, 2]]\<rparr>"
  by code_simp

lemma canstow13: "can_stow_bag (Plane_init 1) 0 13 = Inr False"
  by code_simp

theorem place_bags_in_bin_within_capacity_witness:
  "list_all (\<lambda>(row, bags). (0::int) \<le> bags) [(0, 5), (1, 20), (0, 9), (7, 1), (-1, 1)] \<and>
   place_calls (Plane_init 2) [(0, 5), (1, 20), (0, 9), (7, 1), (-1, 1)] =
     \<lparr>num_rows = 2, overhead = [[2, 2, 2, 0, 2, 2, 2], [2, 2, 2, 0, 2, 2, 2]]\<rparr> \<and>
   length (overhead (place_calls (Plane_init 2) [(0, 5), (1, 20), (0, 9), (7, 1), (-1, 1)])) = nat 2"
proof -
  have h: "\<forall>(row, bags)\<in>set [(0, 5), (1, 20), (0, 9), (7, 1), (-1, 1)]. (0::int) \<le> bags"
    by simp
  have e: "place_calls (Plane_init 2) [(0, 5), (1, 20), (0, 9), (7, 1), (-1, 1)] =
     \<lparr>num_rows = 2, overhead = [[2, 2, 2, 0, 2, 2, 2], [2, 2, 2, 0, 2, 2, 2]]\<rparr>"
    by code_simp
  from place_bags_in_bin_within_capacity[OF h, of 2]
  have l: "length (overhead (place_calls (Plane_init 2) [(0, 5), (1, 20), (0, 9), (7, 1), (-1, 1)])) = nat 2"
    by (rule conjunct1)
  have h': "list_all (\<lambda>(row, bags). (0::int) \<le> bags) [(0, 5), (1, 20), (0, 9), (7, 1), (-1, 1)]"
    by simp
  from h' e l show ?thesis by blast
qed


text \<open>
  Claim C7, as stated, fails: the code has no assertion. On one empty row (capacity 12)
  \<^verbatim>\<open>can_stow_bag(0, 13)\<close> is false, and \<^verbatim>\<open>place_bags_in_bin(0, 13)\<close> still returns
  normally, with the row filled and the thirteenth bag dropped.
\<close>

theorem place_bags_in_bin_overflow_returns_normally:
  "can_stow_bag (Plane_init 1) 0 13 = Inr False \<and>
   place_bags_in_bin (Plane_init 1) 0 13 =
     Inr \<lparr>num_rows = 1, overhead = [[2, 2, 2, 0, 2, 2, 2]]\<rparr>"
  by code_simp

text \<open>
  Claim C7, amended. On well-formed bins, for a row that exists and a nonnegative
  number of bags, \<^verbatim>\<open>place_bags_in_bin\<close> always returns normally. When
  \<^verbatim>\<open>can_stow_bag(row, bags)\<close> holds, all the bags are placed: the row's total grows
  by \<open>bags\<close>. When it does not hold, the row is filled to its capacity
  \<open>6 * OVERHEAD_BIN_CAPACITY\<close> and the excess is dropped silently.
\<close>

theorem place_bags_in_bin_fills_or_drops:
  assumes "bins_ok pl" and "0 \<le> bags" and "bags_in_row pl row = Inr t"
  shows "\<exists>pl'. place_bags_in_bin pl row bags = Inr pl' \<and>
           can_stow_bag pl row bags = Inr (t + bags \<le> 6 * OVERHEAD_BIN_CAPACITY) \<and>
           bags_in_row pl' row =
             Inr (if t + bags \<le> 6 * OVERHEAD_BIN_CAPACITY then t + bags
                  else 6 * OVERHEAD_BIN_CAPACITY)"
  using bags_in_row_place[OF assms] by blast

theorem place_bags_in_bin_fills_or_drops_witness:
  "bins_ok (Plane_init 1) \<and> (0::int) \<le> 5 \<and> bags_in_row (Plane_init 1) 0 = Inr 0 \<and>
   (\<exists>pl'. place_bags_in_bin (Plane_init 1) 0 5 = Inr pl' \<and>
      can_stow_bag (Plane_init 1) 0 5 = Inr (0 + 5 \<le> 6 * OVERHEAD_BIN_CAPACITY) \<and>
      bags_in_row pl' 0 =
        Inr (if 0 + 5 \<le> 6 * OVERHEAD_BIN_CAPACITY then 0 + 5 else 6 * OVERHEAD_BIN_CAPACITY))"
proof -
  have b: "bins_ok (Plane_init 1)" by (rule bins_ok_init)
  have n: "(0::int) \<le> 5" by simp
  have t: "bags_in_row (Plane_init 1) 0 = Inr 0" by code_simp
  from b n t place_bags_in_bin_fills_or_drops[OF b n t] show ?thesis by blast
qed

section \<open>Properties of the occupancy lookup\<close>

text \<open>
  Claim C9. Whatever the passenger list, a passenger returned by
  \<^verbatim>\<open>find_passenger_at(row, col, passengers)\<close> is on the cell and, when its state is
  done, the column is the aisle column. So a done passenger on a non-aisle cell is
  never returned, and when every passenger on a non-aisle cell is done,
  \<^verbatim>\<open>find_passenger_at\<close> returns None and \<^verbatim>\<open>is_tile_occupied\<close> reports the cell as
  unoccupied.
\<close>

theorem find_passenger_at_done_only_in_aisle:
  "(find_passenger_at row col h ps = Some p \<longrightarrow>
      p \<in> set ps \<and> y (h p) = row \<and> x (h p) = col \<and> (state (h p) = Done \<longrightarrow> col = AISLE_COL)) \<and>
   (col \<noteq> AISLE_COL \<and> (\<forall>q\<in>set ps. y (h q) = row \<and> x (h q) = col \<longrightarrow> state (h q) = Done) \<longrightarrow>
      find_passenger_at row col h ps = None \<and> \<not> is_tile_occupied row col h ps)"
proof (induction ps)
  case Nil
  then show ?case by (simp add: is_tile_occupied_def)
next
  case (Cons q ps)
  then show ?case by (auto simp: is_tile_occupied_def)
qed

text \<open>A heap whose passengers are all seated on the seat C of row 0.\<close>

definition seated_heap :: heap where
  "seated_heap = (\<lambda>_. (Passenger_init 0 LC 1 0 False)\<lparr>x := 2, y := 0, state := Done\<rparr>)"

theorem find_passenger_at_done_only_in_aisle_witness:
  "2 \<noteq> AISLE_COL \<and> y (seated_heap 0) = 0 \<and> x (seated_heap 0) = 2 \<and> state (seated_heap 0) = Done \<and>
   find_passenger_at 0 2 seated_heap [0] = None \<and> \<not> is_tile_occupied 0 2 seated_heap [0] \<and>
   find_passenger_at 0 3 (seated_heap(0 := (seated_heap 0)\<lparr>x := 3\<rparr>)) [0] = Some 0"
proof -
  have h: "(2::int) \<noteq> AISLE_COL \<and>
     (\<forall>q\<in>set [0::nat]. y (seated_heap q) = 0 \<and> x (seated_heap q) = 2 \<longrightarrow> state (seated_heap q) = Done)"
    by (simp add: seated_heap_def)
  from find_passenger_at_done_only_in_aisle[of 0 2 seated_heap "[0]" 0] h
  have "find_passenger_at 0 2 seated_heap [0] = None \<and> \<not> is_tile_occupied 0 2 seated_heap [0]"
    by blast
  then show ?thesis by (simp add: seated_heap_def)
qed


section \<open>Properties of the passenger state machine\<close>

lemma find_passenger_at_Some:
  "find_passenger_at row col h ps = Some p \<Longrightarrow>
     p \<in> set ps \<and> y (h p) = row \<and> x (h p) = col \<and> (state (h p) = Done \<longrightarrow> col = AISLE_COL)"
  by (induction ps) (auto split: if_splits)

lemma find_passenger_at_None_iff:
  "find_passenger_at row col h ps = None \<longleftrightarrow>
     (\<forall>q\<in>set ps. y (h q) = row \<and> x (h q) = col \<longrightarrow> state (h q) = Done \<and> col \<noteq> AISLE_COL)"
  by (induction ps) auto

text \<open>A heap whose passengers stand in the aisle at row 0 with three bags (two of them
  for the bins), in the state stowing with one round of the countdown left.\<close>

definition stowing_heap :: heap where
  "stowing_heap =
     (\<lambda>_. (Passenger_init 0 LA 3 0 False)\<lparr>y := 0, state := Stowing, ticks_stowing := 1\<rparr>)"

text \<open>
  Claim C3 says that \<^verbatim>\<open>propose_action\<close> writes to nothing and that bags are committed
  only when the scheduler applies the plan. The code, evaluated: for a stowing passenger
  with \<^verbatim>\<open>ticks_stowing == 1\<close>, a call of \<^verbatim>\<open>propose_action\<close> with the empty
  \<^verbatim>\<open>leaving_map\<close> of the intent pass already puts the two bags into the bins of the
  plane and sets \<^verbatim>\<open>self.overhead_bags\<close> to 0, before any plan is applied.
\<close>

theorem propose_action_stowing_mutates:
  "overhead (Plane_init 1) = [[0, 0, 0, 0, 0, 0, 0]] \<and> overhead_bags (stowing_heap 0) = 2 \<and>
   (case propose_action (Plane_init 1) stowing_heap [0] Map.empty 0 of
      Inl e \<Rightarrow> False
    | Inr (plan, pl', h') \<Rightarrow>
        overhead pl' = [[2, 0, 0, 0, 0, 0, 0]] \<and> overhead_bags (h' 0) = 0 \<and>
        plan_state plan = Move_to_seat \<and> plan_ticks_stowing plan = 0)"
  by code_simp

text \<open>A heap with passenger 0 in the aisle of row 0, on the way to the window seat A,
  and every other passenger seated on the seat C of row 0, the next cell on that way.\<close>

definition squeeze_heap :: heap where
  "squeeze_heap =
     (\<lambda>i. if i = 0 then (Passenger_init 0 LA 1 0 False)\<lparr>y := 0, state := Move_to_seat\<rparr>
          else (Passenger_init 0 LC 1 1 False)\<lparr>y := 0, x := 2, state := Done\<rparr>)"

text \<open>
  Claim C5, as stated, fails: passenger 0 is in the state move_to_seat with no wait
  pending, the next cell towards its seat holds the seated passenger 1, whom it has not
  negotiated with, and both are in the list given to \<^verbatim>\<open>propose_action\<close>. The plan
  moves passenger 0 onto that cell, with no wait and nothing added to
  \<^verbatim>\<open>passed_occupants\<close>.
\<close>

theorem propose_action_walks_onto_seated:
  "state (squeeze_heap 0) = Move_to_seat \<and> delay_counter (squeeze_heap 0) = 0 \<and>
   (y (squeeze_heap 0), x (squeeze_heap 0)) = (0, 3) \<and> target_col (squeeze_heap 0) = 0 \<and>
   state (squeeze_heap 1) = Done \<and> (y (squeeze_heap 1), x (squeeze_heap 1)) = (0, 2) \<and>
   1 \<notin> passed_occupants (squeeze_heap 0) \<and>
   (case propose_action (Plane_init 1) squeeze_heap [0, 1] Map.empty 0 of
      Inl e \<Rightarrow> False
    | Inr (plan, pl', h') \<Rightarrow>
        plan_x plan = 2 \<and> plan_delay_counter plan = 0 \<and> plan_passed_occupants plan = {})"
  by code_simp

text \<open>
  Claim C5, amended. For a passenger in the state move_to_seat with no wait pending
  and not yet in its target column, \<^verbatim>\<open>propose_action\<close> returns a plan and changes neither
  the plane nor the heap. With \<open>next_x\<close> the next column towards the target column:
  when \<^verbatim>\<open>find_passenger_at\<close> reports an occupant of the next cell that is done and not
  yet in \<^verbatim>\<open>passed_occupants\<close> (then the next cell is in the aisle column), the plan
  keeps the position, sets the wait countdown to 1 and adds the occupant to the
  negotiated set; when the reported occupant is already negotiated or is not done, the
  plan moves to the next cell exactly when that cell is in \<^verbatim>\<open>leaving_map\<close>; when no
  occupant is reported, the plan moves. In particular the plan moves when the next cell
  is a seat cell on which every listed passenger is done.
\<close>

theorem propose_action_move_to_seat:
  assumes "state (h self) = Move_to_seat" and "\<not> delay_counter (h self) > 0"
    and "x (h self) \<noteq> target_col (h self)"
    and "next_x = x (h self) + (if x (h self) < target_col (h self) then 1 else - 1)"
  shows "\<exists>plan. propose_action pl h aisle lm self = Inr (plan, pl, h) \<and>
    (case find_passenger_at (y (h self)) next_x h aisle of
       None \<Rightarrow> plan = (current_plan (h self))\<lparr>plan_x := next_x\<rparr>
     | Some occ \<Rightarrow>
         if state (h occ) = Done \<and> occ \<notin> passed_occupants (h self)
         then next_x = AISLE_COL \<and>
              plan = (current_plan (h self))\<lparr>plan_delay_counter := 1,
                       plan_passed_occupants := insert occ (passed_occupants (h self))\<rparr>
         else if lm_get lm (y (h self), next_x)
         then plan = (current_plan (h self))\<lparr>plan_x := next_x\<rparr>
         else plan = current_plan (h self)) \<and>
    (next_x \<noteq> AISLE_COL \<and>
     (\<forall>q\<in>set aisle. y (h q) = y (h self) \<and> x (h q) = next_x \<longrightarrow> state (h q) = Done) \<longrightarrow>
       plan = (current_plan (h self))\<lparr>plan_x := next_x\<rparr>)"
proof -
  let ?f = "find_passenger_at (y (h self)) next_x h aisle"
  have n: "?f = None"
    if "next_x \<noteq> AISLE_COL"
      "\<forall>q\<in>set aisle. y (h q) = y (h self) \<and> x (h q) = next_x \<longrightarrow> state (h q) = Done"
    using that by (simp add: find_passenger_at_None_iff)
  show ?thesis
  proof (cases ?f)
    case None
    with assms show ?thesis
      by (simp add: propose_action_def propose_move_to_seat_def Let_def)
  next
    case (Some occ)
    from find_passenger_at_Some[OF Some] have d: "state (h occ) = Done \<longrightarrow> next_x = AISLE_COL"
      by simp
    from Some n have "\<not> (next_x \<noteq> AISLE_COL \<and>
       (\<forall>q\<in>set aisle. y (h q) = y (h self) \<and> x (h q) = next_x \<longrightarrow> state (h q) = Done))"
      by auto
    with Some assms d show ?thesis
      by (auto simp: propose_action_def propose_move_to_seat_def Let_def)
  qed
qed

text \<open>A heap with passenger 0 on the seat C of row 0 and bound for seat D across the
  aisle, and every other passenger done and standing on the aisle cell of row 0.\<close>

definition crossing_heap :: heap where
  "crossing_heap =
     (\<lambda>i. if i = 0 then (Passenger_init 0 LD 1 0 False)\<lparr>y := 0, x := 2, state := Move_to_seat\<rparr>
          else (Passenger_init 0 LC 1 1 False)\<lparr>y := 0, state := Done\<rparr>)"

theorem propose_action_move_to_seat_witness:
  "propose_action (Plane_init 1) squeeze_heap [0, 1] Map.empty 0 =
     Inr ((current_plan (squeeze_heap 0))\<lparr>plan_x := 2\<rparr>, Plane_init 1, squeeze_heap) \<and>
   propose_action (Plane_init 1) crossing_heap [0, 1] Map.empty 0 =
     Inr ((current_plan (crossing_heap 0))\<lparr>plan_delay_counter := 1, plan_passed_occupants := {1}\<rparr>,
          Plane_init 1, crossing_heap)"
proof -
  have a: "state (squeeze_heap 0) = Move_to_seat" "\<not> delay_counter (squeeze_heap 0) > 0"
    "x (squeeze_heap 0) \<noteq> target_col (squeeze_heap 0)"
    "2 = x (squeeze_heap 0) + (if x (squeeze_heap 0) < target_col (squeeze_heap 0) then 1 else - 1)"
    by (simp_all add: squeeze_heap_def Passenger_init_def)
  have s: "(2::int) \<noteq> AISLE_COL \<and>
     (\<forall>q\<in>set [0, 1]. y (squeeze_heap q) = y (squeeze_heap 0) \<and> x (squeeze_heap q) = 2 \<longrightarrow>
        state (squeeze_heap q) = Done)"
    by (simp add: squeeze_heap_def Passenger_init_def)
  from propose_action_move_to_seat[where h = squeeze_heap and self = 0 and next_x = 2
      and pl = "Plane_init 1" and aisle = "[0, 1]" and lm = Map.empty, OF a] s
  have first: "propose_action (Plane_init 1) squeeze_heap [0, 1] Map.empty 0 =
     Inr ((current_plan (squeeze_heap 0))\<lparr>plan_x := 2\<rparr>, Plane_init 1, squeeze_heap)"
    by blast
  have b: "state (crossing_heap 0) = Move_to_seat" "\<not> delay_counter (crossing_heap 0) > 0"
    "x (crossing_heap 0) \<noteq> target_col (crossing_heap 0)"
    "3 = x (crossing_heap 0) + (if x (crossing_heap 0) < target_col (crossing_heap 0) then 1 else - 1)"
    by (simp_all add: crossing_heap_def Passenger_init_def)
  have f: "find_passenger_at (y (crossing_heap 0)) 3 crossing_heap [0, 1] = Some 1"
    by (simp add: crossing_heap_def Passenger_init_def)
  have d: "state (crossing_heap 1) = Done \<and> 1 \<notin> passed_occupants (crossing_heap 0)"
    "passed_occupants (crossing_heap 0) = {}"
    by (simp_all add: crossing_heap_def Passenger_init_def)
  from propose_action_move_to_seat[where h = crossing_heap and self = 0 and next_x = 3
      and pl = "Plane_init 1" and aisle = "[0, 1]" and lm = Map.empty, OF b] f d
  have second: "propose_action (Plane_init 1) crossing_heap [0, 1] Map.empty 0 =
     Inr ((current_plan (crossing_heap 0))\<lparr>plan_delay_counter := 1, plan_passed_occupants := {1}\<rparr>,
          Plane_init 1, crossing_heap)"
    by auto
  from first second show ?thesis by (rule conjI)
qed

section \<open>Runs of the simulation\<close>

text \<open>Five rows and four passengers with one bag for the bins at most: three passengers
  bound for the rows 4, 3 and 2, then a passenger with two bags bound for the seat A of
  row 0.\<close>

definition boarding_four :: sim where
  "boarding_four =
     Simulation_init 5
       [Passenger_init 4 LA 1 0 False, Passenger_init 3 LA 1 1 False,
        Passenger_init 2 LA 1 2 False, Passenger_init 0 LA 2 3 False]"

text \<open>
  Claim C4 says that the stow countdown goes down once per tick, so that stowing takes
  2 ticks whatever the number of sub-steps. The code, evaluated on \<open>boarding_four\<close>: after
  tick 4 the last passenger is walking, in the aisle at its row; after tick 5 it is
  already in the state move_to_seat with its bag in the bin. It entered stowing in the
  first sub-step of tick 5 and the two later sub-steps of the same tick ran the
  countdown from 2 to 0.
\<close>

theorem stowing_countdown_runs_per_substep:
  "(case ticks 4 boarding_four of
      Inl e \<Rightarrow> False
    | Inr s \<Rightarrow> state (heap s 3) = Walking \<and> y (heap s 3) = 0 \<and> overhead_bags (heap s 3) = 1 \<and>
        tick_count s = 4 \<and> overhead (plane s) ! 0 = [0, 0, 0, 0, 0, 0, 0]) \<and>
   (case ticks 5 boarding_four of
      Inl e \<Rightarrow> False
    | Inr s \<Rightarrow> state (heap s 3) = Move_to_seat \<and> ticks_stowing (heap s 3) = 0 \<and>
        overhead_bags (heap s 3) = 0 \<and> tick_count s = 5 \<and>
        overhead (plane s) ! 0 = [1, 0, 0, 0, 0, 0, 0])"
  by code_simp


section \<open>Properties of the late-arrival scheduler\<close>

lemma get_unique_delay_Some:
  "get_unique_delay ds used = Some (d, ds', used') \<Longrightarrow>
     d \<in> set ds \<and> d \<notin> used \<and> used' = insert d used \<and> set ds' \<subseteq> set ds"
  by (induction ds) (auto split: if_splits)

text \<open>The offsets that the late passengers of a \<^verbatim>\<open>passenger_arr\<close> were given.\<close>

definition late_offsets :: "(int \<times> int \<times> passenger) list \<Rightarrow> int list" where
  "late_offsets arr = map (\<lambda>e. fst (snd e)) (filter (\<lambda>e. is_late (snd (snd e))) arr)"

lemma assign_offsets_shape:
  "assign_offsets ps ds used arr = Some arr' \<Longrightarrow>
   \<exists>new. arr' = arr @ new \<and> map (\<lambda>e. snd (snd e)) new = ps \<and>
     (\<forall>e\<in>set new. fst e = queue_index (snd (snd e)) \<and>
        (\<not> is_late (snd (snd e)) \<longrightarrow> fst (snd e) = 0)) \<and>
     set (late_offsets new) \<subseteq> set ds - used \<and> distinct (late_offsets new)"
proof (induction ps arbitrary: ds used arr)
  case Nil
  then show ?case by (simp add: late_offsets_def)
next
  case (Cons p ps)
  show ?case
  proof (cases "is_late p")
    case False
    with Cons.prems have "assign_offsets ps ds used (arr @ [(queue_index p, 0, p)]) = Some arr'"
      by simp
    from Cons.IH[OF this] obtain new where
      n: "arr' = (arr @ [(queue_index p, 0, p)]) @ new" "map (\<lambda>e. snd (snd e)) new = ps"
         "\<forall>e\<in>set new. fst e = queue_index (snd (snd e)) \<and> (\<not> is_late (snd (snd e)) \<longrightarrow> fst (snd e) = 0)"
         "set (late_offsets new) \<subseteq> set ds - used" "distinct (late_offsets new)" by blast
    with False show ?thesis
      by (intro exI[of _ "(queue_index p, 0, p) # new"]) (simp add: late_offsets_def)
  next
    case True
    with Cons.prems obtain d ds' used' where
      g: "get_unique_delay ds used = Some (d, ds', used')" and
      r: "assign_offsets ps ds' used' (arr @ [(queue_index p, d, p)]) = Some arr'"
      by (auto split: option.splits)
    from get_unique_delay_Some[OF g] have
      d: "d \<in> set ds" "d \<notin> used" "used' = insert d used" "set ds' \<subseteq> set ds" by auto
    from Cons.IH[OF r] obtain new where
      n: "arr' = (arr @ [(queue_index p, d, p)]) @ new" "map (\<lambda>e. snd (snd e)) new = ps"
         "\<forall>e\<in>set new. fst e = queue_index (snd (snd e)) \<and> (\<not> is_late (snd (snd e)) \<longrightarrow> fst (snd e) = 0)"
         "set (late_offsets new) \<subseteq> set ds' - used'" "distinct (late_offsets new)" by blast
    from n(4) d have "d \<notin> set (late_offsets new)" "set (late_offsets new) \<subseteq> set ds - used"
      by auto
    with n True d show ?thesis
      by (intro exI[of _ "(queue_index p, d, p) # new"]) (simp add: late_offsets_def)
  qed
qed

lemma assign_offsets_returns:
  "distinct ds \<Longrightarrow> set ds \<inter> used = {} \<Longrightarrow> length (filter is_late ps) \<le> length ds \<Longrightarrow>
   \<exists>arr'. assign_offsets ps ds used arr = Some arr'"
proof (induction ps arbitrary: ds used arr)
  case Nil
  then show ?case by simp
next
  case (Cons p ps)
  show ?case
  proof (cases "is_late p")
    case False
    with Cons show ?thesis by simp
  next
    case True
    with Cons.prems(3) obtain d ds' where ds: "ds = d # ds'" by (cases ds) auto
    with Cons.prems have "d \<notin> used" "distinct ds'" "set ds' \<inter> insert d used = {}"
      "length (filter is_late ps) \<le> length ds'" using True by auto
    with Cons.IH[of ds' "insert d used"] True ds show ?thesis by simp
  qed
qed

lemma renumber_indices: "map queue_index (renumber i ps) = map int [i..<i + length ps]"
proof (induction ps arbitrary: i)
  case Nil
  then show ?case by simp
next
  case (Cons p ps)
  have "[i..<i + Suc (length ps)] = i # [Suc i..<i + Suc (length ps)]"
    by (rule upt_conv_Cons) simp
  with Cons[of "Suc i"] show ?case by simp
qed

text \<open>What \<^verbatim>\<open>apply_late_arrivals\<close> leaves of a passenger once the flag is set: the
  seat, the bags and the flag.\<close>

definition seat_of :: "passenger \<Rightarrow> int \<times> letter \<times> int \<times> bool" where
  "seat_of p = (seat_row p, seat_letter p, bags_count p, is_late p)"

lemma renumber_seats: "map seat_of (renumber i ps) = map seat_of ps"
  by (induction ps arbitrary: i) (simp_all add: seat_of_def)


lemma length_mark_late: "length (mark_late ps idx) = length ps"
  by (induction idx arbitrary: ps) simp_all

text \<open>A queue of two passengers, as a generator numbers them.\<close>

definition late_base :: "passenger list" where
  "late_base = [Passenger_init 0 LA 1 0 False, Passenger_init 0 LB 1 1 False]"

text \<open>
  Claim C6, as stated, fails: with two passengers of which the first is late and draws
  the offset 1, the sort keys (queue index plus offset) are 1 for the late passenger
  and 1 for the other one. The offsets are unique, the keys are not.
\<close>

theorem late_sort_keys_collide:
  "(case assign_offsets (mark_late late_base [0]) [1] {} [] of
      None \<Rightarrow> False
    | Some passenger_arr \<Rightarrow>
        map (\<lambda>e. (fst e, fst (snd e), is_late (snd (snd e)))) passenger_arr =
          [(0, 1, True), (1, 0, False)] \<and>
        map sort_key_of passenger_arr = [1, 1]) \<and>
   (case apply_late_arrivals late_base 1 [0] id [1] True of
      None \<Rightarrow> False
    | Some new_list \<Rightarrow>
        map (\<lambda>p. (seat_letter p, is_late p, queue_index p)) new_list =
          [(LA, True, 0), (LB, False, 1)])"
  by code_simp

text \<open>
  Claim C6, amended. In immediate mode with at least one late passenger,
  \<^verbatim>\<open>apply_late_arrivals\<close> returns as soon as the draws hold enough fresh values (it does
  when the draws are distinct and at least as many as the late passengers). Whenever it
  returns: every passenger is paired with its queue index and an offset, 0 for a
  passenger that is not late, and the offsets of the late passengers are drawn values
  that are pairwise distinct (the keys, index plus offset, may coincide); the result is
  the list sorted by key and renumbered 0..n-1, and holds the same passengers (seat,
  bags, late flag) as the marked input.
\<close>

theorem apply_late_arrivals_immediate:
  assumes "0 < late_count"
  shows "(distinct draws \<and> length (filter is_late (mark_late base late_indices)) \<le> length draws \<longrightarrow>
      (\<exists>res. apply_late_arrivals base late_count late_indices shuffle draws True = Some res)) \<and>
    (\<forall>res. apply_late_arrivals base late_count late_indices shuffle draws True = Some res \<longrightarrow>
      (\<exists>arr. assign_offsets (mark_late base late_indices) draws {} [] = Some arr \<and>
         map (\<lambda>e. snd (snd e)) arr = mark_late base late_indices \<and>
         (\<forall>e\<in>set arr. fst e = queue_index (snd (snd e)) \<and>
            (\<not> is_late (snd (snd e)) \<longrightarrow> fst (snd e) = 0)) \<and>
         distinct (late_offsets arr) \<and> set (late_offsets arr) \<subseteq> set draws \<and>
         sorted (map sort_key_of (sort_key sort_key_of arr)) \<and>
         res = renumber 0 (map (\<lambda>e. snd (snd e)) (sort_key sort_key_of arr)) \<and>
         map queue_index res = map int [0..<length base] \<and>
         mset (map seat_of res) = mset (map seat_of (mark_late base late_indices))))"
proof (intro conjI impI allI)
  assume "distinct draws \<and> length (filter is_late (mark_late base late_indices)) \<le> length draws"
  then obtain arr where "assign_offsets (mark_late base late_indices) draws {} [] = Some arr"
    using assign_offsets_returns[of draws "{}" "mark_late base late_indices" "[]"] by auto
  with assms show "\<exists>res. apply_late_arrivals base late_count late_indices shuffle draws True = Some res"
    by (simp add: apply_late_arrivals_def)
next
  fix res
  assume r: "apply_late_arrivals base late_count late_indices shuffle draws True = Some res"
  let ?m = "mark_late base late_indices"
  from r assms obtain arr where a: "assign_offsets ?m draws {} [] = Some arr"
    and res: "res = renumber 0 (map (\<lambda>e. snd (snd e)) (sort_key sort_key_of arr))"
    by (auto simp: apply_late_arrivals_def split: option.splits)
  from assign_offsets_shape[OF a] have
    sh: "map (\<lambda>e. snd (snd e)) arr = ?m"
        "\<forall>e\<in>set arr. fst e = queue_index (snd (snd e)) \<and> (\<not> is_late (snd (snd e)) \<longrightarrow> fst (snd e) = 0)"
        "set (late_offsets arr) \<subseteq> set draws" "distinct (late_offsets arr)" by auto
  have len: "length arr = length base"
    using sh(1) length_mark_late[of base late_indices] by (metis length_map)
  have qi: "map queue_index res = map int [0..<length base]"
    using renumber_indices[of 0 "map (\<lambda>e. snd (snd e)) (sort_key sort_key_of arr)"] len res
    by simp
  have "mset (map (\<lambda>e. snd (snd e)) (sort_key sort_key_of arr)) = mset ?m"
    using sh(1) by (metis mset_map mset_sort)
  then have ms: "mset (map seat_of res) = mset (map seat_of ?m)"
    unfolding res renumber_seats by (metis mset_map)
  show "\<exists>arr. assign_offsets ?m draws {} [] = Some arr \<and>
         map (\<lambda>e. snd (snd e)) arr = ?m \<and>
         (\<forall>e\<in>set arr. fst e = queue_index (snd (snd e)) \<and>
            (\<not> is_late (snd (snd e)) \<longrightarrow> fst (snd e) = 0)) \<and>
         distinct (late_offsets arr) \<and> set (late_offsets arr) \<subseteq> set draws \<and>
         sorted (map sort_key_of (sort_key sort_key_of arr)) \<and>
         res = renumber 0 (map (\<lambda>e. snd (snd e)) (sort_key sort_key_of arr)) \<and>
         map queue_index res = map int [0..<length base] \<and>
         mset (map seat_of res) = mset (map seat_of ?m)"
    using a sh res qi ms by (intro exI[of _ arr]) (simp add: sorted_sort_key)
qed

theorem apply_late_arrivals_immediate_witness:
  "(case apply_late_arrivals late_base 1 [0] id [5] True of
      None \<Rightarrow> False
    | Some res \<Rightarrow>
        map (\<lambda>p. (seat_letter p, is_late p, queue_index p)) res = [(LB, False, 0), (LA, True, 1)] \<and>
        map queue_index res = map int [0..<length late_base])"
proof -
  have e: "apply_late_arrivals late_base 1 [0] id [5] True \<noteq> None \<and>
     map (\<lambda>p. (seat_letter p, is_late p, queue_index p))
       (the (apply_late_arrivals late_base 1 [0] id [5] True)) = [(LB, False, 0), (LA, True, 1)]"
    by code_simp
  then obtain res where r: "apply_late_arrivals late_base 1 [0] id [5] True = Some res" by auto
  have p: "(0::int) < 1" by simp
  from apply_late_arrivals_immediate[OF p, of "[5]" late_base "[0]" id] r
  have "map queue_index res = map int [0..<length late_base]" by blast
  with e r show ?thesis by simp
qed


section \<open>The stages of a sub-step\<close>

text \<open>The cell a plan targets, and the cell a passenger stands on, as
  \<^verbatim>\<open>(row, col)\<close>.\<close>

definition plan_pos :: "plan \<Rightarrow> int \<times> int" where
  "plan_pos plan = (plan_y plan, plan_x plan)"

definition pos_of :: "passenger \<Rightarrow> int \<times> int" where
  "pos_of me = (y me, x me)"

text \<open>The passengers whose final plan targets a cell, in the order of the
  dictionary: the list that \<^verbatim>\<open>desired_positions\<close> holds for the cell.\<close>

definition targets :: "(ref \<times> plan) list \<Rightarrow> int \<times> int \<Rightarrow> ref list" where
  "targets fp pos = map fst (filter (\<lambda>e. plan_pos (snd e) = pos) fp)"

text \<open>\<^verbatim>\<open>srt[0]\<close>, and the entry of \<^verbatim>\<open>final_updates\<close> that the collision rule
  writes for a passenger.\<close>

definition winner_of :: "heap \<Rightarrow> ref list \<Rightarrow> ref" where
  "winner_of h p_list = hd (sort_key (\<lambda>pp. queue_index (h pp)) p_list)"

definition decided :: "heap \<Rightarrow> (ref \<times> plan) list \<Rightarrow> ref \<Rightarrow> plan" where
  "decided h fp p =
     (if p = winner_of h (targets fp (plan_pos (the (map_of fp p)))) then the (map_of fp p)
      else current_plan (h p))"

lemma targets_Cons:
  "targets ((p, plan) # fp) pos = (if plan_pos plan = pos then p # targets fp pos else targets fp pos)"
  by (simp add: targets_def)

lemma targets_Nil: "targets [] pos = []"
  by (simp add: targets_def)

lemma build_desired_map:
  "map_of (build_desired fp d) pos =
     (if targets fp pos = [] then map_of d pos
      else Some ((case map_of d pos of None \<Rightarrow> [] | Some l \<Rightarrow> l) @ targets fp pos))"
proof (induction fp arbitrary: d)
  case Nil
  then show ?case by (simp add: targets_Nil)
next
  case (Cons e fp)
  obtain p plan where e: "e = (p, plan)" by (cases e)
  show ?case
    unfolding e
    by (simp add: Cons.IH targets_Cons update_conv' plan_pos_def Let_def)
qed

lemma build_desired_distinct:
  "distinct (map fst d) \<Longrightarrow> distinct (map fst (build_desired fp d))"
proof (induction fp arbitrary: d)
  case Nil
  then show ?case by simp
next
  case (Cons e fp)
  obtain p plan where e: "e = (p, plan)" by (cases e)
  show ?case unfolding e using Cons.prems
    by (auto simp: Let_def intro!: Cons.IH distinct_update)
qed

lemma build_desired_entries:
  assumes "(pos, l) \<in> set (build_desired fp [])"
  shows "l = targets fp pos \<and> l \<noteq> []"
proof -
  have "distinct (map fst (build_desired fp []))" by (rule build_desired_distinct) simp
  with assms have "map_of (build_desired fp []) pos = Some l" by simp
  then show ?thesis by (simp add: build_desired_map split: if_splits)
qed

lemma build_desired_has:
  assumes "(p, plan) \<in> set fp"
  shows "plan_pos plan \<in> fst ` set (build_desired fp [])"
proof -
  from assms have "p \<in> set (targets fp (plan_pos plan))" by (force simp: targets_def)
  then have "map_of (build_desired fp []) (plan_pos plan) \<noteq> None"
    by (auto simp: build_desired_map)
  then show ?thesis by (simp add: map_of_eq_None_iff)
qed

lemma targets_distinct: "distinct (map fst fp) \<Longrightarrow> distinct (targets fp pos)"
  by (simp add: targets_def distinct_map_filter)

lemma targets_mem:
  "distinct (map fst fp) \<Longrightarrow> p \<in> set (targets fp pos) \<longleftrightarrow> (\<exists>plan. map_of fp p = Some plan \<and> plan_pos plan = pos)"
  by (force simp: targets_def)

lemma hold_losers_map:
  "map_of (hold_losers h ls fu) p = (if p \<in> set ls then Some (current_plan (h p)) else map_of fu p)"
  by (induction ls arbitrary: fu) (auto simp: update_conv')

lemma sort_key_hd_props:
  assumes "l \<noteq> []"
  shows "\<exists>w ls. sort_key f l = w # ls \<and> w = hd (sort_key f l) \<and> set (w # ls) = set l \<and>
           (distinct l \<longrightarrow> w \<notin> set ls) \<and> (\<forall>q\<in>set l. f w \<le> f q)"
proof -
  from assms have "sort_key f l \<noteq> []" by (metis length_0_conv length_sort)
  then obtain w ls where wl: "sort_key f l = w # ls" by (cases "sort_key f l") auto
  have s: "set (w # ls) = set l" using wl by (metis set_sort)
  have d: "distinct l \<Longrightarrow> w \<notin> set ls" using wl by (metis distinct.simps(2) distinct_sort)
  have "sorted (map f (w # ls))" using wl by (metis sorted_sort_key)
  then have "\<forall>q\<in>set (w # ls). f w \<le> f q" by auto
  with s have "\<forall>q\<in>set l. f w \<le> f q" by simp
  with wl s d show ?thesis by auto
qed

lemma resolve_char:
  assumes "distinct (map fst fp)" and "distinct (map fst d)"
    and "\<forall>(pos, l)\<in>set d. l = targets fp pos \<and> l \<noteq> []"
  shows "\<exists>fu. resolve h fp d fu0 = Inr fu \<and>
    (\<forall>p. map_of fu p =
       (case map_of fp p of
          None \<Rightarrow> map_of fu0 p
        | Some plan \<Rightarrow> if plan_pos plan \<in> fst ` set d then Some (decided h fp p) else map_of fu0 p))"
  using assms(2,3)
proof (induction d arbitrary: fu0)
  case Nil
  then show ?case by (auto split: option.splits)
next
  case (Cons e d)
  obtain pos l where e: "e = (pos, l)" by (cases e)
  from Cons.prems e have l: "l = targets fp pos" "l \<noteq> []" and posd: "pos \<notin> fst ` set d"
    and dd: "distinct (map fst d)" and rest: "\<forall>(pos, l)\<in>set d. l = targets fp pos \<and> l \<noteq> []"
    by auto
  have dl: "distinct l" using l(1) assms(1) by (simp add: targets_distinct)
  have mem: "q \<in> set l \<longleftrightarrow> (\<exists>plan. map_of fp q = Some plan \<and> plan_pos plan = pos)" for q
    using targets_mem[OF assms(1)] l(1) by simp
  let ?f = "\<lambda>pp. queue_index (h pp)"
  from sort_key_hd_props[OF l(2), of ?f] dl obtain w ls where
    wl: "sort_key ?f l = w # ls" "w = hd (sort_key ?f l)" "set (w # ls) = set l" "w \<notin> set ls"
    by blast
  from wl(3) have "w \<in> set l" by auto
  with mem obtain wplan where wplan: "map_of fp w = Some wplan" "plan_pos wplan = pos" by blast
  define fu1 where "fu1 = (if length l = 1 then AList.update (hd l) wplan fu0
                            else hold_losers h ls (AList.update w wplan fu0))"
  have single: "length l = 1 \<Longrightarrow> hd l = w \<and> ls = []"
  proof -
    assume "length l = 1"
    then obtain q where "l = [q]" by (cases l) auto
    with wl show ?thesis by simp
  qed
  have step: "resolve h fp (e # d) fu0 = resolve h fp d fu1"
    unfolding e fu1_def using wl(1) wplan single by (auto simp: Let_def)
  have fu1: "map_of fu1 p = (if p \<in> set l then Some (decided h fp p) else map_of fu0 p)" for p
  proof (cases "p \<in> set l")
    case False
    with wl(3) have "p \<noteq> w" "p \<notin> set ls" by auto
    with False single show ?thesis
      by (auto simp: fu1_def hold_losers_map update_conv')
  next
    case True
    with mem obtain plan where plan: "map_of fp p = Some plan" "plan_pos plan = pos" by blast
    have dec: "decided h fp p = (if p = w then wplan else current_plan (h p))"
      using plan wplan wl(2) l(1) by (auto simp: decided_def winner_of_def)
    show ?thesis
    proof (cases "p = w")
      case True
      with dec \<open>p \<in> set l\<close> wl(4) single show ?thesis
        by (auto simp: fu1_def hold_losers_map update_conv')
    next
      case False
      with \<open>p \<in> set l\<close> wl(3) have "p \<in> set ls" by auto
      moreover from this single have "length l \<noteq> 1" by auto
      ultimately show ?thesis using dec False \<open>p \<in> set l\<close>
        by (auto simp: fu1_def hold_losers_map)
    qed
  qed
  from Cons.IH[OF dd rest, of fu1] obtain fu where
    fu: "resolve h fp d fu1 = Inr fu"
        "\<forall>p. map_of fu p = (case map_of fp p of None \<Rightarrow> map_of fu1 p
           | Some plan \<Rightarrow> if plan_pos plan \<in> fst ` set d then Some (decided h fp p) else map_of fu1 p)"
    by blast
  have fin: "map_of fu p = (case map_of fp p of None \<Rightarrow> map_of fu0 p
           | Some plan \<Rightarrow> if plan_pos plan \<in> fst ` set (e # d) then Some (decided h fp p) else map_of fu0 p)" for p
  proof (cases "map_of fp p")
    case None
    with mem have "p \<notin> set l" by auto
    with None fu(2) fu1 show ?thesis by simp
  next
    case (Some plan)
    with mem have "p \<in> set l \<longleftrightarrow> plan_pos plan = pos" by auto
    with Some fu(2) fu1 e show ?thesis by auto
  qed
  have "resolve h fp (e # d) fu0 = Inr fu" using step fu(1) by simp
  with fin show ?case by (intro exI[of _ fu] conjI allI)
qed

text \<open>The test \<^verbatim>\<open>(p.x, p.y) != old_xy\<close> after an update.\<close>

definition moved_by :: "passenger \<Rightarrow> plan \<Rightarrow> bool" where
  "moved_by me upd = ((plan_x upd, plan_y upd) \<noteq> (x me, y me))"

lemma apply_updates_char:
  assumes "distinct cs" and "\<forall>p\<in>set cs. map_of fu p \<noteq> None"
  shows "\<exists>h' m' b'. apply_updates fu cs h m b = Inr (h', m', b') \<and>
    (\<forall>p. h' p = (if p \<in> set cs then apply_plan (h p) (the (map_of fu p)) else h p)) \<and>
    m' = m \<union> {p \<in> set cs. moved_by (h p) (the (map_of fu p))} \<and>
    b' = (b \<or> (\<exists>p\<in>set cs. moved_by (h p) (the (map_of fu p))))"
  using assms
proof (induction cs arbitrary: h m b)
  case Nil
  then show ?case by simp
next
  case (Cons c cs)
  from Cons.prems obtain upd where upd: "map_of fu c = Some upd" by auto
  let ?me = "apply_plan (h c) upd"
  let ?h1 = "h(c := ?me)"
  have xy: "((x ?me, y ?me) \<noteq> (x (h c), y (h c))) = moved_by (h c) upd"
    by (simp add: apply_plan_def moved_by_def)
  from Cons.prems have d: "distinct cs" "c \<notin> set cs" "\<forall>p\<in>set cs. map_of fu p \<noteq> None" by auto
  have same: "\<forall>p\<in>set cs. ?h1 p = h p" using d(2) by auto
  show ?case
  proof (cases "moved_by (h c) upd")
    case True
    from Cons.IH[OF d(1,3), of ?h1 "insert c m" True] obtain h' m' b' where
      r: "apply_updates fu cs ?h1 (insert c m) True = Inr (h', m', b')"
         "\<forall>p. h' p = (if p \<in> set cs then apply_plan (?h1 p) (the (map_of fu p)) else ?h1 p)"
         "m' = insert c m \<union> {p \<in> set cs. moved_by (?h1 p) (the (map_of fu p))}"
         "b' = (True \<or> (\<exists>p\<in>set cs. moved_by (?h1 p) (the (map_of fu p))))" by blast
    have "apply_updates fu (c # cs) h m b = Inr (h', m', b')"
      using upd xy True r(1) by (simp add: Let_def)
    moreover have "\<forall>p. h' p = (if p \<in> set (c # cs) then apply_plan (h p) (the (map_of fu p)) else h p)"
      using r(2) d(2) upd by auto
    moreover have "m' = m \<union> {p \<in> set (c # cs). moved_by (h p) (the (map_of fu p))}"
      using r(3) d(2) upd True by auto
    moreover have "b' = (b \<or> (\<exists>p\<in>set (c # cs). moved_by (h p) (the (map_of fu p))))"
      using r(4) upd True by auto
    ultimately show ?thesis by blast
  next
    case False
    from Cons.IH[OF d(1,3), of ?h1 m b] obtain h' m' b' where
      r: "apply_updates fu cs ?h1 m b = Inr (h', m', b')"
         "\<forall>p. h' p = (if p \<in> set cs then apply_plan (?h1 p) (the (map_of fu p)) else ?h1 p)"
         "m' = m \<union> {p \<in> set cs. moved_by (?h1 p) (the (map_of fu p))}"
         "b' = (b \<or> (\<exists>p\<in>set cs. moved_by (?h1 p) (the (map_of fu p))))" by blast
    have "apply_updates fu (c # cs) h m b = Inr (h', m', b')"
      using upd xy False r(1) by (simp add: Let_def)
    moreover have "\<forall>p. h' p = (if p \<in> set (c # cs) then apply_plan (h p) (the (map_of fu p)) else h p)"
      using r(2) d(2) upd by auto
    moreover have "m' = m \<union> {p \<in> set (c # cs). moved_by (h p) (the (map_of fu p))}"
      using r(3) d(2) upd False by auto
    moreover have "b' = (b \<or> (\<exists>p\<in>set (c # cs). moved_by (h p) (the (map_of fu p))))"
      using r(4) d(2) upd False by auto
    ultimately show ?thesis by blast
  qed
qed


text \<open>Two heaps that differ in the field \<^verbatim>\<open>overhead_bags\<close> at most: all that
  \<^verbatim>\<open>propose_action\<close> writes to a passenger.\<close>

definition heq :: "heap \<Rightarrow> heap \<Rightarrow> bool" where
  "heq h h' = (\<forall>q. h' q = (h q)\<lparr>overhead_bags := overhead_bags (h' q)\<rparr>)"

lemma heq_refl: "heq h h"
  by (simp add: heq_def)

lemma heq_trans: "heq h h1 \<Longrightarrow> heq h1 h2 \<Longrightarrow> heq h h2"
  unfolding heq_def
proof (intro allI)
  fix q assume a: "\<forall>q. h1 q = (h q)\<lparr>overhead_bags := overhead_bags (h1 q)\<rparr>"
    and b: "\<forall>q. h2 q = (h1 q)\<lparr>overhead_bags := overhead_bags (h2 q)\<rparr>"
  from a have "h1 q = (h q)\<lparr>overhead_bags := overhead_bags (h1 q)\<rparr>" by blast
  moreover from b have "h2 q = (h1 q)\<lparr>overhead_bags := overhead_bags (h2 q)\<rparr>" by blast
  ultimately show "h2 q = (h q)\<lparr>overhead_bags := overhead_bags (h2 q)\<rparr>"
    by (metis (no_types) passenger.update_convs(4) passenger.surjective) 
qed

lemma heq_fields:
  assumes "heq h h'"
  shows "x (h' q) = x (h q)" "y (h' q) = y (h q)" "state (h' q) = state (h q)"
    "queue_index (h' q) = queue_index (h q)" "seat_row (h' q) = seat_row (h q)"
    "target_col (h' q) = target_col (h q)" "delay_counter (h' q) = delay_counter (h q)"
    "ticks_stowing (h' q) = ticks_stowing (h q)" "passed_occupants (h' q) = passed_occupants (h q)"
    "current_plan (h' q) = current_plan (h q)" "pos_of (h' q) = pos_of (h q)"
proof -
  from assms have e: "h' q = (h q)\<lparr>overhead_bags := overhead_bags (h' q)\<rparr>" by (simp add: heq_def)
  show "x (h' q) = x (h q)" by (subst e) simp
  show "y (h' q) = y (h q)" by (subst e) simp
  show "state (h' q) = state (h q)" by (subst e) simp
  show "queue_index (h' q) = queue_index (h q)" by (subst e) simp
  show "seat_row (h' q) = seat_row (h q)" by (subst e) simp
  show "target_col (h' q) = target_col (h q)" by (subst e) simp
  show "delay_counter (h' q) = delay_counter (h q)" by (subst e) simp
  show "ticks_stowing (h' q) = ticks_stowing (h q)" by (subst e) simp
  show "passed_occupants (h' q) = passed_occupants (h q)" by (subst e) simp
  show "current_plan (h' q) = current_plan (h q)" by (subst e) (simp add: current_plan_def)
  show "pos_of (h' q) = pos_of (h q)" by (subst e) (simp add: pos_of_def)
qed

lemma heq_find: "heq h h' \<Longrightarrow> find_passenger_at row col h' ps = find_passenger_at row col h ps"
  by (induction ps) (simp_all add: heq_fields)

lemma place_bags_num_rows: "place_bags_in_bin pl row bags = Inr pl' \<Longrightarrow> num_rows pl' = num_rows pl"
  by (auto simp: place_bags_in_bin_def split: sum.splits)

lemma propose_action_frame:
  assumes "propose_action pl h aisle lm p = Inr (plan, pl', h')"
  shows "heq h h' \<and> num_rows pl' = num_rows pl \<and> (\<forall>q. q \<noteq> p \<longrightarrow> h' q = h q)"
proof -
  have r: "heq h h" by (rule heq_refl)
  have st: "heq h (h(p := (h p)\<lparr>overhead_bags := 0\<rparr>))" by (simp add: heq_def)
  from assms show ?thesis
    unfolding propose_action_def propose_queue_def propose_walking_def propose_stowing_def
      propose_looking_bin_def propose_move_to_seat_def Let_def
    using r st
    by (auto split: if_splits option.splits sum.splits dest: place_bags_num_rows)
qed


text \<open>A cell is free for a plan when \<^verbatim>\<open>find_passenger_at\<close> finds nobody on it or
  \<^verbatim>\<open>leaving_map\<close> holds it.\<close>

definition free_cell :: "heap \<Rightarrow> ref list \<Rightarrow> leaving_map \<Rightarrow> int \<times> int \<Rightarrow> bool" where
  "free_cell h aisle lm c = (find_passenger_at (fst c) (snd c) h aisle = None \<or> lm_get lm c)"

text \<open>The cell that the plan of \<^verbatim>\<open>propose_action\<close> targets, read off the code of
  the method: it depends on the positions and states only, not on the bins
  (\<open>propose_action_wants\<close> below proves that this is the cell of the plan).\<close>

definition wants :: "int \<Rightarrow> heap \<Rightarrow> ref list \<Rightarrow> leaving_map \<Rightarrow> ref \<Rightarrow> int \<times> int" where
  "wants n h aisle lm p =
     (let me = h p in
      case state me of
        Done \<Rightarrow> pos_of me
      | Queue \<Rightarrow>
          if list_ex (\<lambda>other. state (h other) = Queue \<and> queue_index (h other) < queue_index me) aisle
          then pos_of me
          else if free_cell h aisle lm (0, AISLE_COL) then (0, x me) else pos_of me
      | Walking \<Rightarrow>
          if y me < seat_row me \<and> free_cell h aisle lm (y me + 1, AISLE_COL) then (y me + 1, x me)
          else pos_of me
      | Stowing \<Rightarrow> pos_of me
      | Looking_bin \<Rightarrow>
          if y me < n - 1 \<and> free_cell h aisle lm (y me + 1, AISLE_COL) then (y me + 1, x me)
          else pos_of me
      | Move_to_seat \<Rightarrow>
          if delay_counter me > 0 \<or> x me = target_col me then pos_of me
          else
            (let next_x = x me + (if x me < target_col me then 1 else - 1) in
             case find_passenger_at (y me) next_x h aisle of
               None \<Rightarrow> (y me, next_x)
             | Some occ \<Rightarrow>
                 if state (h occ) = Done \<and> occ \<notin> passed_occupants me then pos_of me
                 else if lm_get lm (y me, next_x) then (y me, next_x) else pos_of me))"

lemma propose_queue_wants:
  "state (h p) = Queue \<Longrightarrow> propose_queue pl h aisle lm p = Inr (plan, pl', h') \<Longrightarrow>
   plan_pos plan = wants n h aisle lm p"
  by (auto simp: propose_queue_def wants_def free_cell_def is_tile_occupied_def Let_def
        plan_pos_def pos_of_def current_plan_def split: if_splits)

lemma propose_walking_wants:
  "state (h p) = Walking \<Longrightarrow> propose_walking pl h aisle lm p = Inr (plan, pl', h') \<Longrightarrow>
   plan_pos plan = wants n h aisle lm p"
  by (auto simp: propose_walking_def wants_def free_cell_def Let_def
        plan_pos_def pos_of_def current_plan_def split: if_splits option.splits sum.splits)

lemma propose_stowing_wants:
  "state (h p) = Stowing \<Longrightarrow> propose_stowing pl h aisle lm p = Inr (plan, pl', h') \<Longrightarrow>
   plan_pos plan = wants n h aisle lm p"
  by (auto simp: propose_stowing_def wants_def Let_def
        plan_pos_def pos_of_def current_plan_def split: if_splits sum.splits)

lemma propose_looking_bin_wants:
  "state (h p) = Looking_bin \<Longrightarrow> propose_looking_bin pl h aisle lm p = Inr (plan, pl', h') \<Longrightarrow>
   plan_pos plan = wants (num_rows pl) h aisle lm p"
  by (auto simp: propose_looking_bin_def wants_def free_cell_def Let_def
        plan_pos_def pos_of_def current_plan_def split: if_splits option.splits sum.splits)

lemma propose_move_to_seat_wants:
  "state (h p) = Move_to_seat \<Longrightarrow> propose_move_to_seat pl h aisle lm p = Inr (plan, pl', h') \<Longrightarrow>
   plan_pos plan = wants n h aisle lm p"
  by (auto simp: propose_move_to_seat_def wants_def Let_def
        plan_pos_def pos_of_def current_plan_def split: if_splits option.splits)

lemma propose_action_wants:
  assumes "propose_action pl h aisle lm p = Inr (plan, pl', h')"
  shows "plan_pos plan = wants (num_rows pl) h aisle lm p"
proof (cases "state (h p)")
  case Queue
  with assms show ?thesis by (simp add: propose_action_def propose_queue_wants)
next
  case Walking
  with assms show ?thesis by (simp add: propose_action_def propose_walking_wants)
next
  case Stowing
  with assms show ?thesis by (simp add: propose_action_def propose_stowing_wants)
next
  case Looking_bin
  with assms show ?thesis by (simp add: propose_action_def propose_looking_bin_wants)
next
  case Move_to_seat
  with assms show ?thesis by (simp add: propose_action_def propose_move_to_seat_wants)
next
  case Done
  with assms show ?thesis
    by (auto simp: propose_action_def wants_def Let_def plan_pos_def pos_of_def current_plan_def)
qed

lemma heq_list_ex:
  "heq h h' \<Longrightarrow>
   list_ex (\<lambda>other. state (h' other) = Queue \<and> queue_index (h' other) < queue_index (h' p)) aisle =
   list_ex (\<lambda>other. state (h other) = Queue \<and> queue_index (h other) < queue_index (h p)) aisle"
  by (simp add: heq_fields)

lemma heq_wants:
  assumes "heq h h'"
  shows "wants n h' aisle lm p = wants n h aisle lm p"
proof -
  note f = heq_fields[OF assms] heq_find[OF assms]
  have st: "state (h' p) = state (h p)" by (rule f)
  show ?thesis
  proof (cases "state (h p)")
    case Queue
    with st show ?thesis by (auto simp: wants_def free_cell_def Let_def f)
  next
    case Walking
    with st show ?thesis by (auto simp: wants_def free_cell_def Let_def f)
  next
    case Stowing
    with st show ?thesis by (auto simp: wants_def Let_def f)
  next
    case Looking_bin
    with st show ?thesis by (auto simp: wants_def free_cell_def Let_def f)
  next
    case Move_to_seat
    with st show ?thesis by (auto simp: wants_def Let_def f split: option.splits)
  next
    case Done
    with st show ?thesis by (auto simp: wants_def Let_def f)
  qed
qed

lemma lm_get_empty: "lm_get Map.empty c = False"
  by (simp add: lm_get_def)

lemma wants_mono:
  assumes "wants n h aisle Map.empty p \<noteq> pos_of (h p)"
  shows "wants n h aisle lm p = wants n h aisle Map.empty p"
  using assms
  unfolding wants_def free_cell_def Let_def
  by (cases "state (h p)") (auto simp: lm_get_empty split: if_splits option.splits)

lemma wants_done: "state (h p) = Done \<Longrightarrow> wants n h aisle lm p = pos_of (h p)"
  by (simp add: wants_def)

lemma wants_free:
  assumes "wants n h aisle lm p = c" and "c \<noteq> pos_of (h p)"
    and "state (h p) \<in> {Queue, Walking, Looking_bin} \<longrightarrow> x (h p) = AISLE_COL"
  shows "free_cell h aisle lm c"
  using assms
  unfolding wants_def free_cell_def Let_def
  by (cases "state (h p)") (auto simp: pos_of_def split: if_splits option.splits)

lemma lm_get_upd: "lm_get (lm(k \<mapsto> True)) c = (c = k \<or> lm_get lm c)"
  by (simp add: lm_get_def)

lemma build_leaving_map_get:
  "lm_get (build_leaving_map h draft lm0) c \<longleftrightarrow>
     lm_get lm0 c \<or> (\<exists>e\<in>set draft. pos_of (h (fst e)) = c \<and> plan_pos (snd e) \<noteq> c)"
proof (induction draft arbitrary: lm0)
  case Nil
  then show ?case by simp
next
  case (Cons e draft)
  obtain p plan where e: "e = (p, plan)" by (cases e)
  have pp: "((y (h p), x (h p)) \<noteq> (plan_y plan, plan_x plan)) = (pos_of (h p) \<noteq> plan_pos plan)"
    by (simp add: pos_of_def plan_pos_def)
  have k: "(y (h p), x (h p)) = pos_of (h p)" by (simp add: pos_of_def)
  show ?case unfolding e
    by (simp only: build_leaving_map.simps Let_def pp k Cons.IH lm_get_upd split: if_splits)
       (auto simp: plan_pos_def)
qed


lemma propose_all_inv:
  assumes step: "\<And>pl h p plan pl' h'. I pl h \<Longrightarrow>
      propose_action pl h aisle lm p = Inr (plan, pl', h') \<Longrightarrow> I pl' h'"
    and "I pl h" and "propose_all pl h aisle lm ps acc = Inr (plans, pl', h')"
  shows "I pl' h'"
  using assms(2,3)
proof (induction ps arbitrary: pl h acc)
  case Nil
  then show ?case by simp
next
  case (Cons p ps)
  from Cons.prems(2) obtain plan pl1 h1 where
    a: "propose_action pl h aisle lm p = Inr (plan, pl1, h1)"
    and r: "propose_all pl1 h1 aisle lm ps (AList.update p plan acc) = Inr (plans, pl', h')"
    by (auto split: sum.splits)
  from step[OF Cons.prems(1) a] have "I pl1 h1" .
  from Cons.IH[OF this r] show ?case .
qed

lemma propose_all_keys:
  "propose_all pl h aisle lm ps acc = Inr (plans, pl', h') \<Longrightarrow> distinct ps \<Longrightarrow>
   set ps \<inter> fst ` set acc = {} \<Longrightarrow> map fst plans = map fst acc @ ps"
proof (induction ps arbitrary: pl h acc)
  case Nil
  then show ?case by simp
next
  case (Cons p ps)
  from Cons.prems(1) obtain plan pl1 h1 where
    r: "propose_all pl1 h1 aisle lm ps (AList.update p plan acc) = Inr (plans, pl', h')"
    by (auto split: sum.splits)
  from Cons.prems have k: "map fst (AList.update p plan acc) = map fst acc @ [p]"
    by (simp add: update_keys)
  then have "fst ` set (AList.update p plan acc) = insert p (fst ` set acc)"
    by (metis Un_insert_right append_Nil2 image_set list.simps(15) set_append)
  with Cons.prems have "set ps \<inter> fst ` set (AList.update p plan acc) = {}" by auto
  from Cons.IH[OF r _ this] Cons.prems(2) k show ?case by simp
qed

lemma propose_all_other:
  "propose_all pl h aisle lm ps acc = Inr (plans, pl', h') \<Longrightarrow> q \<notin> set ps \<Longrightarrow>
   map_of plans q = map_of acc q"
proof (induction ps arbitrary: pl h acc)
  case Nil
  then show ?case by simp
next
  case (Cons p ps)
  from Cons.prems(1) obtain plan pl1 h1 where
    r: "propose_all pl1 h1 aisle lm ps (AList.update p plan acc) = Inr (plans, pl', h')"
    by (auto split: sum.splits)
  from Cons.IH[OF r] Cons.prems(2) show ?case by (simp add: update_conv')
qed

lemma propose_all_lookup:
  assumes step: "\<And>pl h p plan pl' h'. I pl h \<Longrightarrow>
      propose_action pl h aisle lm p = Inr (plan, pl', h') \<Longrightarrow> I pl' h'"
    and "I pl h" and "distinct ps" and "propose_all pl h aisle lm ps acc = Inr (plans, pl', h')"
    and "p \<in> set ps"
  shows "\<exists>pl_a h_a plan pl_b h_b. I pl_a h_a \<and>
           propose_action pl_a h_a aisle lm p = Inr (plan, pl_b, h_b) \<and> map_of plans p = Some plan"
  using assms(2-)
proof (induction ps arbitrary: pl h acc)
  case Nil
  then show ?case by simp
next
  case (Cons c ps)
  from Cons.prems(3) obtain plan pl1 h1 where
    a: "propose_action pl h aisle lm c = Inr (plan, pl1, h1)"
    and r: "propose_all pl1 h1 aisle lm ps (AList.update c plan acc) = Inr (plans, pl', h')"
    by (auto split: sum.splits)
  from step[OF Cons.prems(1) a] have I1: "I pl1 h1" .
  show ?case
  proof (cases "p = c")
    case True
    with Cons.prems(2) have "c \<notin> set ps" by simp
    from propose_all_other[OF r this] have "map_of plans c = Some plan" by (simp add: update_conv')
    with Cons.prems(1) a True show ?thesis by blast
  next
    case False
    with Cons.prems have "p \<in> set ps" "distinct ps" by auto
    from Cons.IH[OF I1 this(2) r this(1)] show ?thesis .
  qed
qed


lemma cand_sorted_props:
  "set (cand_sorted s m) = set (passengers_in_aisle s) - m"
  "distinct (passengers_in_aisle s) \<Longrightarrow> distinct (cand_sorted s m)"
  "(cand_sorted s m = []) = (filter (\<lambda>p. p \<notin> m) (passengers_in_aisle s) = [])"
proof -
  show "set (cand_sorted s m) = set (passengers_in_aisle s) - m"
    by (auto simp: cand_sorted_def)
  show "distinct (passengers_in_aisle s) \<Longrightarrow> distinct (cand_sorted s m)"
    by (simp add: cand_sorted_def)
  show "(cand_sorted s m = []) = (filter (\<lambda>p. p \<notin> m) (passengers_in_aisle s) = [])"
    unfolding cand_sorted_def by (metis length_0_conv length_sort)
qed

lemma propose_step_inv:
  "heq h0 h \<and> num_rows pl = n \<Longrightarrow> propose_action pl h aisle lm p = Inr (plan, pl', h') \<Longrightarrow>
   heq h0 h' \<and> num_rows pl' = n"
  using propose_action_frame[of pl h aisle lm p plan pl' h'] heq_trans[of h0 h h'] by auto

lemma final_proposals_char:
  assumes d: "distinct (passengers_in_aisle s)" and fpr: "final_proposals s m = Inr (fp, pl2, h2)"
  shows "map fst fp = cand_sorted s m \<and> heq (heap s) h2 \<and> num_rows pl2 = num_rows (plane s) \<and>
    (\<exists>lm. (\<forall>c. lm_get lm c \<longleftrightarrow>
              (\<exists>q\<in>set (cand_sorted s m). pos_of (heap s q) = c \<and>
                 wants (num_rows (plane s)) (heap s) (passengers_in_aisle s) Map.empty q \<noteq> c)) \<and>
          (\<forall>p\<in>set (cand_sorted s m). \<exists>pl_a h_a plan pl_b h_b.
              heq (heap s) h_a \<and> num_rows pl_a = num_rows (plane s) \<and>
              propose_action pl_a h_a (passengers_in_aisle s) lm p = Inr (plan, pl_b, h_b) \<and>
              map_of fp p = Some plan))"
proof -
  let ?cs = "cand_sorted s m" and ?n = "num_rows (plane s)" and ?aisle = "passengers_in_aisle s"
  let ?I = "\<lambda>pl h. heq (heap s) h \<and> num_rows pl = ?n"
  from fpr obtain draft pl1 h1 where
    dr: "propose_all (plane s) (heap s) ?aisle Map.empty ?cs [] = Inr (draft, pl1, h1)"
    and fi: "propose_all pl1 h1 ?aisle (build_leaving_map h1 draft Map.empty) ?cs [] = Inr (fp, pl2, h2)"
    by (auto simp: final_proposals_def split: sum.splits)
  let ?lm = "build_leaving_map h1 draft Map.empty"
  have dcs: "distinct ?cs" using d by (rule cand_sorted_props)
  have I0: "?I (plane s) (heap s)" by (simp add: heq_refl)
  have I1: "?I pl1 h1"
    by (rule propose_all_inv[where I = ?I, OF _ I0 dr]) (rule propose_step_inv)
  have I2: "?I pl2 h2"
    by (rule propose_all_inv[where I = ?I, OF _ I1 fi]) (rule propose_step_inv)
  have kd: "map fst draft = ?cs" using propose_all_keys[OF dr dcs] by simp
  have kf: "map fst fp = ?cs" using propose_all_keys[OF fi dcs] by simp
  have dplan: "\<exists>plan. map_of draft p = Some plan \<and> plan_pos plan = wants ?n (heap s) ?aisle Map.empty p"
    if "p \<in> set ?cs" for p
  proof -
    from propose_all_lookup[where I = ?I, OF _ I0 dcs dr that] obtain pl_a h_a plan pl_b h_b where
      a: "?I pl_a h_a" "propose_action pl_a h_a ?aisle Map.empty p = Inr (plan, pl_b, h_b)"
         "map_of draft p = Some plan"
      using propose_step_inv by blast
    from propose_action_wants[OF a(2)] a(1) have "plan_pos plan = wants ?n (heap s) ?aisle Map.empty p"
      by (simp add: heq_wants)
    with a(3) show ?thesis by blast
  qed
  have lm: "lm_get ?lm c \<longleftrightarrow> (\<exists>q\<in>set ?cs. pos_of (heap s q) = c \<and>
                 wants ?n (heap s) ?aisle Map.empty q \<noteq> c)" for c
  proof
    assume "lm_get ?lm c"
    then obtain e where e: "e \<in> set draft" "pos_of (h1 (fst e)) = c" "plan_pos (snd e) \<noteq> c"
      by (auto simp: build_leaving_map_get lm_get_empty)
    from e(1) kd have in_cs: "fst e \<in> set ?cs" by (metis image_eqI image_set)
    from kd dcs have "distinct (map fst draft)" by simp
    with e(1) have "map_of draft (fst e) = Some (snd e)" by simp
    with dplan[OF in_cs] have "plan_pos (snd e) = wants ?n (heap s) ?aisle Map.empty (fst e)" by simp
    with e(2,3) I1 in_cs show "\<exists>q\<in>set ?cs. pos_of (heap s q) = c \<and>
                 wants ?n (heap s) ?aisle Map.empty q \<noteq> c"
      by (auto simp: heq_fields)
  next
    assume "\<exists>q\<in>set ?cs. pos_of (heap s q) = c \<and> wants ?n (heap s) ?aisle Map.empty q \<noteq> c"
    then obtain q where q: "q \<in> set ?cs" "pos_of (heap s q) = c"
      "wants ?n (heap s) ?aisle Map.empty q \<noteq> c" by blast
    from dplan[OF q(1)] obtain plan where p: "map_of draft q = Some plan"
      "plan_pos plan = wants ?n (heap s) ?aisle Map.empty q" by blast
    from p(1) have "(q, plan) \<in> set draft" by (rule map_of_SomeD)
    with q p(2) I1 have "\<exists>e\<in>set draft. pos_of (h1 (fst e)) = c \<and> plan_pos (snd e) \<noteq> c"
      by (intro bexI[of _ "(q, plan)"]) (auto simp: heq_fields)
    then show "lm_get ?lm c" by (simp add: build_leaving_map_get)
  qed
  have fplan: "\<exists>pl_a h_a plan pl_b h_b.
              heq (heap s) h_a \<and> num_rows pl_a = ?n \<and>
              propose_action pl_a h_a ?aisle ?lm p = Inr (plan, pl_b, h_b) \<and>
              map_of fp p = Some plan" if "p \<in> set ?cs" for p
    using propose_all_lookup[where I = ?I, OF _ I1 dcs fi that] propose_step_inv by blast
  from kf I2 lm fplan show ?thesis by blast
qed

lemma do_substep_no_candidates:
  "cand_sorted s m = [] \<Longrightarrow> do_substep s m = Inr (False, s, m)"
  by (simp add: do_substep_def cand_sorted_props(3))

lemma do_substep_fails:
  "cand_sorted s m \<noteq> [] \<Longrightarrow> final_proposals s m = Inl e \<Longrightarrow> do_substep s m = Inl e"
  by (auto simp: do_substep_def final_proposals_def cand_sorted_def Let_def split: sum.splits)

lemma do_substep_eq:
  assumes d: "distinct (passengers_in_aisle s)" and ne: "cand_sorted s m \<noteq> []"
    and fpr: "final_proposals s m = Inr (fp, pl2, h2)"
  shows "do_substep s m =
    Inr (\<exists>p\<in>set (cand_sorted s m). moved_by (h2 p) (decided h2 fp p),
         s\<lparr>plane := pl2,
           heap := (\<lambda>p. if p \<in> set (cand_sorted s m) then apply_plan (h2 p) (decided h2 fp p)
                         else h2 p)\<rparr>,
         m \<union> {p \<in> set (cand_sorted s m). moved_by (h2 p) (decided h2 fp p)})"
proof -
  let ?cs = "cand_sorted s m"
  from final_proposals_char[OF d fpr] have kf: "map fst fp = ?cs" by blast
  have dcs: "distinct ?cs" using d by (rule cand_sorted_props)
  with kf have dfp: "distinct (map fst fp)" by simp
  let ?D = "build_desired fp []"
  have dD: "distinct (map fst ?D)" by (rule build_desired_distinct) simp
  have eD: "\<forall>(pos, l)\<in>set ?D. l = targets fp pos \<and> l \<noteq> []"
    using build_desired_entries by blast
  from resolve_char[OF dfp dD eD, of h2 "[]"] obtain fu where
    fu: "resolve h2 fp ?D [] = Inr fu"
        "\<forall>p. map_of fu p = (case map_of fp p of None \<Rightarrow> map_of [] p
           | Some plan \<Rightarrow> if plan_pos plan \<in> fst ` set ?D then Some (decided h2 fp p) else map_of [] p)"
    by blast
  have fup: "map_of fu p = Some (decided h2 fp p)" if "p \<in> set ?cs" for p
  proof -
    from that kf have "p \<in> fst ` set fp" by (metis image_set)
    then obtain plan where pl: "(p, plan) \<in> set fp" by auto
    with dfp have "map_of fp p = Some plan" by simp
    moreover from build_desired_has[OF pl] have "plan_pos plan \<in> fst ` set ?D" .
    ultimately show ?thesis using fu(2) by simp
  qed
  then have all: "\<forall>p\<in>set ?cs. map_of fu p \<noteq> None" by simp
  from apply_updates_char[OF dcs all, of h2 m False] obtain h3 m' b' where
    ap: "apply_updates fu ?cs h2 m False = Inr (h3, m', b')"
        "\<forall>p. h3 p = (if p \<in> set ?cs then apply_plan (h2 p) (the (map_of fu p)) else h2 p)"
        "m' = m \<union> {p \<in> set ?cs. moved_by (h2 p) (the (map_of fu p))}"
        "b' = (False \<or> (\<exists>p\<in>set ?cs. moved_by (h2 p) (the (map_of fu p))))" by blast
  have h3: "h3 = (\<lambda>p. if p \<in> set ?cs then apply_plan (h2 p) (decided h2 fp p) else h2 p)"
    using ap(2) fup by (intro ext) simp
  have m': "m' = m \<union> {p \<in> set ?cs. moved_by (h2 p) (decided h2 fp p)}"
    using ap(3) fup by auto
  have b': "b' = (\<exists>p\<in>set ?cs. moved_by (h2 p) (decided h2 fp p))"
    using ap(4) fup by auto
  from fpr obtain draft pl1 h1 where
    dr: "propose_all (plane s) (heap s) (passengers_in_aisle s) Map.empty ?cs [] = Inr (draft, pl1, h1)"
    and fi: "propose_all pl1 h1 (passengers_in_aisle s) (build_leaving_map h1 draft Map.empty) ?cs [] = Inr (fp, pl2, h2)"
    by (auto simp: final_proposals_def split: sum.splits)
  have ne': "filter (\<lambda>p. p \<notin> m) (passengers_in_aisle s) \<noteq> []"
    using ne by (simp add: cand_sorted_props(3))
  have "do_substep s m = Inr (b', s\<lparr>plane := pl2, heap := h3\<rparr>, m')"
    unfolding do_substep_def Let_def
    using ne' dr fi fu(1) ap(1) by (simp add: cand_sorted_def[symmetric])
  with h3 m' b' show ?thesis by simp
qed


lemma current_plan_apply_plan: "current_plan (apply_plan me plan) = plan"
  by (simp add: current_plan_def apply_plan_def)

lemma apply_plan_current: "apply_plan me (current_plan me) = me"
  by (simp add: current_plan_def apply_plan_def)

lemma heq_winner_of: "heq h h' \<Longrightarrow> winner_of h' l = winner_of h l"
  by (simp add: winner_of_def heq_fields)

lemma targets_subset: "set (targets fp pos) \<subseteq> fst ` set fp"
  by (auto simp: targets_def)

lemma substep_result:
  assumes d: "distinct (passengers_in_aisle s)" and fpr: "final_proposals s m = Inr (fp, pl2, h2)"
    and ds: "do_substep s m = Inr (b, s', m')"
  shows "s' = s\<lparr>plane := pl2,
                 heap := (\<lambda>p. if p \<in> set (cand_sorted s m)
                               then apply_plan (h2 p) (decided h2 fp p) else h2 p)\<rparr> \<and>
    b = (\<exists>p\<in>set (cand_sorted s m). moved_by (h2 p) (decided h2 fp p)) \<and>
    m' = m \<union> {p \<in> set (cand_sorted s m). moved_by (h2 p) (decided h2 fp p)}"
proof (cases "cand_sorted s m = []")
  case True
  with ds have "s' = s" "b = False" "m' = m" by (simp_all add: do_substep_no_candidates)
  moreover from True fpr have "pl2 = plane s" "h2 = heap s"
    by (simp_all add: final_proposals_def)
  ultimately show ?thesis using True by simp
next
  case False
  from do_substep_eq[OF d False fpr] ds show ?thesis by simp
qed

lemma substep_heap:
  assumes d: "distinct (passengers_in_aisle s)" and fpr: "final_proposals s m = Inr (fp, pl2, h2)"
    and ds: "do_substep s m = Inr (b, s', m')"
  shows "heap s' p = (if p \<in> set (cand_sorted s m) then apply_plan (h2 p) (decided h2 fp p) else h2 p)"
    and "passengers_in_aisle s' = passengers_in_aisle s"
    and "passengers_queue s' = passengers_queue s"
    and "plane s' = pl2"
proof -
  from substep_result[OF d fpr ds] have
    s': "s' = s\<lparr>plane := pl2,
                 heap := (\<lambda>p. if p \<in> set (cand_sorted s m)
                               then apply_plan (h2 p) (decided h2 fp p) else h2 p)\<rparr>" by blast
  show "heap s' p = (if p \<in> set (cand_sorted s m) then apply_plan (h2 p) (decided h2 fp p) else h2 p)"
    by (subst s') simp
  show "passengers_in_aisle s' = passengers_in_aisle s" by (subst s') simp
  show "passengers_queue s' = passengers_queue s" by (subst s') simp
  show "plane s' = pl2" by (subst s') simp
qed

section \<open>Properties of the conflict resolution\<close>

text \<open>
  Claim C2. In a sub-step (the active list holding every passenger once), take the
  passengers whose final proposal targets one cell, when there are two or more of them.
  The winner, the first of them in the order of \<^verbatim>\<open>queue_index\<close>, is one of them, no
  contender has a smaller \<^verbatim>\<open>queue_index\<close>, and after the sub-step its position, state,
  stow countdown, wait countdown and negotiated set are those of its final proposal.
  Every other contender has these six fields unchanged: its proposal is discarded.
\<close>

theorem do_substep_smallest_index_wins:
  assumes "distinct (passengers_in_aisle s)"
    and "final_proposals s m = Inr (fp, pl2, h2)"
    and "do_substep s m = Inr (b, s', m')"
    and "contenders = targets fp pos" and "2 \<le> length contenders"
    and "winner = winner_of (heap s) contenders"
  shows "winner \<in> set contenders \<and>
         (\<forall>q\<in>set contenders. queue_index (heap s winner) \<le> queue_index (heap s q)) \<and>
         map_of fp winner = Some (current_plan (heap s' winner)) \<and>
         (\<forall>q\<in>set contenders. q \<noteq> winner \<longrightarrow> current_plan (heap s' q) = current_plan (heap s q))"
proof -
  let ?cs = "cand_sorted s m"
  from final_proposals_char[OF assms(1,2)] have kf: "map fst fp = ?cs" and hq: "heq (heap s) h2"
    by blast+
  have dcs: "distinct ?cs" using assms(1) by (rule cand_sorted_props)
  with kf have dfp: "distinct (map fst fp)" by simp
  from assms(5) have ne: "contenders \<noteq> []" by auto
  from sort_key_hd_props[OF ne, of "\<lambda>pp. queue_index (heap s pp)"] assms(6) have
    w: "winner \<in> set contenders"
       "\<forall>q\<in>set contenders. queue_index (heap s winner) \<le> queue_index (heap s q)"
    by (auto simp: winner_of_def)
  have sub: "set contenders \<subseteq> set ?cs"
    using targets_subset[of fp pos] kf assms(4) by (metis image_set)
  have plan_of: "\<exists>plan. map_of fp q = Some plan \<and> plan_pos plan = pos" if "q \<in> set contenders" for q
    using that assms(4) targets_mem[OF dfp] by simp
  have dec: "decided h2 fp q = (if q = winner then the (map_of fp q) else current_plan (heap s q))"
    if "q \<in> set contenders" for q
  proof -
    from plan_of[OF that] obtain plan where "map_of fp q = Some plan" "plan_pos plan = pos" by blast
    then show ?thesis
      using assms(4,6) hq by (simp add: decided_def heq_winner_of heq_fields)
  qed
  have hp: "heap s' p = apply_plan (h2 p) (decided h2 fp p)" if "p \<in> set ?cs" for p
    using substep_heap(1)[OF assms(1,2,3), of p] that by simp
  have "map_of fp winner = Some (current_plan (heap s' winner))"
    using hp[of winner] sub w(1) dec[OF w(1)] plan_of[OF w(1)]
    by (auto simp: current_plan_apply_plan)
  moreover have "current_plan (heap s' q) = current_plan (heap s q)"
    if "q \<in> set contenders" "q \<noteq> winner" for q
    using hp[of q] sub that dec[OF that(1)] by (auto simp: current_plan_apply_plan)
  ultimately show ?thesis using w by blast
qed


text \<open>A simulation in the middle of a tick: passenger 0 has just sat down on the seat C
  of row 0 and is still in the active list, passenger 1 stands in the aisle of row 0 on
  its way to the seat A. Both final proposals target the cell (0, 2).\<close>

definition contest :: sim where
  "contest =
     \<lparr>plane = Plane_init 1,
      heap = (\<lambda>i. if i = 0 then (Passenger_init 0 LC 1 0 False)\<lparr>y := 0, x := 2, state := Done\<rparr>
                  else (Passenger_init 0 LA 1 1 False)\<lparr>y := 0, state := Move_to_seat\<rparr>),
      passengers_queue = [0, 1], passengers_in_aisle = [0, 1], tick_count = 4,
      final_tick_count = None\<rparr>"

theorem do_substep_smallest_index_wins_witness:
  "(case final_proposals contest {} of
      Inl e \<Rightarrow> False
    | Inr (fp, pl2, h2) \<Rightarrow>
        (case do_substep contest {} of
           Inl e \<Rightarrow> False
         | Inr (b, s', m') \<Rightarrow>
             targets fp (0, 2) = [0, 1] \<and> winner_of (heap contest) [0, 1] = 0 \<and>
             map (\<lambda>e. plan_pos (snd e)) fp = [(0, 2), (0, 2)] \<and>
             map_of fp 0 = Some (current_plan (heap s' 0)) \<and>
             current_plan (heap s' 1) = current_plan (heap contest 1) \<and>
             pos_of (heap s' 1) = (0, 3) \<and> state (heap s' 1) = Move_to_seat))"
proof -
  have ev: "(case final_proposals contest {} of
      Inl e \<Rightarrow> False
    | Inr (fp, pl2, h2) \<Rightarrow>
        (case do_substep contest {} of
           Inl e \<Rightarrow> False
         | Inr (b, s', m') \<Rightarrow>
             targets fp (0, 2) = [0, 1] \<and> winner_of (heap contest) [0, 1] = 0 \<and>
             map (\<lambda>e. plan_pos (snd e)) fp = [(0, 2), (0, 2)] \<and>
             pos_of (heap s' 1) = (0, 3) \<and> state (heap s' 1) = Move_to_seat))"
    by code_simp
  then obtain fp pl2 h2 b s' m' where
    f: "final_proposals contest {} = Inr (fp, pl2, h2)" and
    d: "do_substep contest {} = Inr (b, s', m')" and
    t: "targets fp (0, 2) = [0, 1]" "winner_of (heap contest) [0, 1] = 0"
       "map (\<lambda>e. plan_pos (snd e)) fp = [(0, 2), (0, 2)]"
       "pos_of (heap s' 1) = (0, 3)" "state (heap s' 1) = Move_to_seat"
    by (auto split: sum.splits)
  have dist: "distinct (passengers_in_aisle contest)" by (simp add: contest_def)
  have c: "[0, 1] = targets fp (0, 2)" "2 \<le> length [0::nat, 1]"
    "0 = winner_of (heap contest) [0, 1]" using t by simp_all
  from do_substep_smallest_index_wins[OF dist f d c]
  have "map_of fp 0 = Some (current_plan (heap s' 0))"
    "current_plan (heap s' 1) = current_plan (heap contest 1)" by auto
  with f d t show ?thesis by simp
qed

text \<open>No two passengers of a list that are both not done stand on the same cell of the
  plane grid (rows from 0).\<close>

definition no_two_on_cell :: "heap \<Rightarrow> ref list \<Rightarrow> bool" where
  "no_two_on_cell h ps =
     list_all (\<lambda>p. list_all (\<lambda>q. p = q \<or> state (h p) = Done \<or> state (h q) = Done \<or>
                                 y (h p) < 0 \<or> pos_of (h p) \<noteq> pos_of (h q)) ps) ps"

text \<open>The passengers that queue, walk or look for a bin are in the aisle column.\<close>

definition in_aisle_column :: "heap \<Rightarrow> ref list \<Rightarrow> bool" where
  "in_aisle_column h ps =
     list_all (\<lambda>p. state (h p) \<in> {Queue, Walking, Looking_bin} \<longrightarrow> x (h p) = AISLE_COL) ps"

text \<open>Every final proposal that moves its passenger was applied: no passenger that
  proposed to move was held back by the collision rule.\<close>

definition every_move_applied :: "heap \<Rightarrow> (ref \<times> plan) list \<Rightarrow> heap \<Rightarrow> bool" where
  "every_move_applied h fp h' =
     list_all (\<lambda>e. plan_pos (snd e) = pos_of (h (fst e)) \<or> pos_of (h' (fst e)) = plan_pos (snd e)) fp"

lemma no_two_on_cellD:
  assumes "no_two_on_cell h ps" "p \<in> set ps" "q \<in> set ps" "p \<noteq> q"
    "state (h p) \<noteq> Done" "state (h q) \<noteq> Done" "0 \<le> y (h p)"
  shows "pos_of (h p) \<noteq> pos_of (h q)"
proof -
  from assms(1,2) have "list_all (\<lambda>q. p = q \<or> state (h p) = Done \<or> state (h q) = Done \<or>
                                 y (h p) < 0 \<or> pos_of (h p) \<noteq> pos_of (h q)) ps"
    unfolding no_two_on_cell_def list_all_iff by (rule bspec)
  then have "p = q \<or> state (h p) = Done \<or> state (h q) = Done \<or>
                                 y (h p) < 0 \<or> pos_of (h p) \<noteq> pos_of (h q)"
    unfolding list_all_iff using assms(3) by (rule bspec)
  with assms(4-) show ?thesis by simp
qed

lemma pos_of_apply_plan: "pos_of (apply_plan me plan) = plan_pos plan"
  by (simp add: pos_of_def apply_plan_def plan_pos_def)

lemma plan_pos_current: "plan_pos (current_plan me) = pos_of me"
  by (simp add: plan_pos_def current_plan_def pos_of_def)

lemma propose_action_done:
  "state (h p) = Done \<Longrightarrow> propose_action pl h aisle lm p = Inr (current_plan (h p), pl, h)"
  by (simp add: propose_action_def)

text \<open>
  Claim C1, amended. Take a sub-step in which every proposed move is applied, from a
  state in which no two passengers of the active list that are not done stand on the
  same cell of the grid (the active list holding every passenger once, and the
  passengers that queue, walk or look for a bin standing in the aisle column). At the
  end of the sub-step again no two passengers of the active list that are not done
  stand on the same cell of the grid. Nothing is said about passengers that are done
  (a seated passenger is no obstacle: see \<open>two_agents_on_one_cell\<close>), nor about a
  sub-step in which a passenger that proposed to move was held back.
\<close>

theorem do_substep_keeps_cells_apart:
  assumes d: "distinct (passengers_in_aisle s)"
    and fpr: "final_proposals s m = Inr (fp, pl2, h2)"
    and ds: "do_substep s m = Inr (b, s', m')"
    and col: "in_aisle_column (heap s) (passengers_in_aisle s)"
    and inv: "no_two_on_cell (heap s) (passengers_in_aisle s)"
    and app: "every_move_applied (heap s) fp (heap s')"
  shows "no_two_on_cell (heap s') (passengers_in_aisle s')"
proof -
  let ?cs = "cand_sorted s m" and ?n = "num_rows (plane s)" and ?aisle = "passengers_in_aisle s"
  let ?h = "heap s" and ?h' = "heap s'"
  from final_proposals_char[OF d fpr] obtain lm where
    kf: "map fst fp = ?cs" and hq: "heq ?h h2" and
    lm: "\<And>c. lm_get lm c \<longleftrightarrow> (\<exists>q\<in>set ?cs. pos_of (?h q) = c \<and> wants ?n ?h ?aisle Map.empty q \<noteq> c)" and
    fplan: "\<And>p. p \<in> set ?cs \<Longrightarrow> \<exists>pl_a h_a plan pl_b h_b.
              heq ?h h_a \<and> num_rows pl_a = ?n \<and>
              propose_action pl_a h_a ?aisle lm p = Inr (plan, pl_b, h_b) \<and> map_of fp p = Some plan"
    by blast
  have dcs: "distinct ?cs" using d by (rule cand_sorted_props)
  have cs_sub: "set ?cs \<subseteq> set ?aisle" by (auto simp: cand_sorted_props)
  note hp = substep_heap(1)[OF d fpr ds]
  have aisle': "passengers_in_aisle s' = ?aisle" by (rule substep_heap(2)[OF d fpr ds])
  \<comment> \<open>the final plan of a candidate\<close>
  have plan_c: "\<exists>plan. map_of fp p = Some plan \<and> plan_pos plan = wants ?n ?h ?aisle lm p \<and>
                  (state (?h p) = Done \<longrightarrow> plan = current_plan (?h p))"
    if "p \<in> set ?cs" for p
  proof -
    from fplan[OF that] obtain pl_a h_a plan pl_b h_b where
      a: "heq ?h h_a" "num_rows pl_a = ?n"
         "propose_action pl_a h_a ?aisle lm p = Inr (plan, pl_b, h_b)" "map_of fp p = Some plan"
      by blast
    have "plan_pos plan = wants ?n ?h ?aisle lm p"
      using propose_action_wants[OF a(3)] a(1,2) by (simp add: heq_wants)
    moreover have "plan = current_plan (?h p)" if "state (?h p) = Done"
      using that a(1,3) by (simp add: propose_action_done heq_fields)
    ultimately show ?thesis using a(4) by blast
  qed
  \<comment> \<open>what a sub-step does to one passenger\<close>
  have stay: "pos_of (?h' p) = pos_of (?h p)" if "p \<notin> set ?cs" for p
    using hp[of p] that hq by (simp add: heq_fields)
  have done_stays: "state (?h' p) = Done" if "state (?h p) = Done" for p
  proof (cases "p \<in> set ?cs")
    case False
    with hp[of p] that hq show ?thesis by (simp add: heq_fields)
  next
    case True
    from plan_c[OF True] that have "map_of fp p = Some (current_plan (?h p))" by auto
    then have "decided h2 fp p = current_plan (h2 p)"
      using hq by (simp add: decided_def heq_fields)
    with hp[of p] True that show ?thesis
      by (simp add: apply_plan_def current_plan_def heq_fields(3)[OF hq])
  qed
  have moved: "p \<in> set ?cs \<and> pos_of (?h' p) = wants ?n ?h ?aisle lm p \<and>
               p = winner_of h2 (targets fp (pos_of (?h' p)))"
    if "pos_of (?h' p) \<noteq> pos_of (?h p)" for p
  proof -
    from that stay have c: "p \<in> set ?cs" by blast
    from plan_c[OF c] obtain plan where pl: "map_of fp p = Some plan"
      "plan_pos plan = wants ?n ?h ?aisle lm p" by blast
    have h': "?h' p = apply_plan (h2 p) (decided h2 fp p)" using hp[of p] c by simp
    have "decided h2 fp p \<noteq> current_plan (h2 p)"
    proof
      assume "decided h2 fp p = current_plan (h2 p)"
      with h' hq have "pos_of (?h' p) = pos_of (?h p)"
        by (simp add: pos_of_apply_plan plan_pos_current heq_fields)
      with that show False by simp
    qed
    then have w: "p = winner_of h2 (targets fp (plan_pos plan))" and dp: "decided h2 fp p = plan"
      using pl(1) by (auto simp: decided_def split: if_splits)
    have pos: "pos_of (?h' p) = plan_pos plan"
      by (subst h') (simp add: dp pos_of_apply_plan)
    have "p = winner_of h2 (targets fp (pos_of (?h' p)))"
      by (subst pos) (rule w)
    moreover have "pos_of (?h' p) = wants ?n ?h ?aisle lm p"
      by (subst pos) (rule pl(2))
    ultimately show ?thesis using c by (intro conjI)
  qed
  have applied: "pos_of (?h' p) = wants ?n ?h ?aisle lm p"
    if "p \<in> set ?cs" "wants ?n ?h ?aisle lm p \<noteq> pos_of (?h p)" for p
  proof -
    from plan_c[OF that(1)] obtain plan where pl: "map_of fp p = Some plan"
      "plan_pos plan = wants ?n ?h ?aisle lm p" by blast
    then have "(p, plan) \<in> set fp" by (auto dest: map_of_SomeD)
    with app have "plan_pos plan = pos_of (?h p) \<or> pos_of (?h' p) = plan_pos plan"
      by (auto simp: every_move_applied_def list_all_iff)
    with pl(2) that(2) show ?thesis by simp
  qed
  \<comment> \<open>a passenger that stays is not walked onto\<close>
  have not_onto: False
    if pq: "p \<in> set ?aisle" "q \<in> set ?aisle"
      and nd: "state (?h' p) \<noteq> Done"
      and y0: "0 \<le> y (?h' p)"
      and same: "pos_of (?h' p) = pos_of (?h' q)"
      and ps: "pos_of (?h' p) = pos_of (?h p)"
      and qm: "pos_of (?h' q) \<noteq> pos_of (?h q)" for p q
  proof -
    let ?c = "pos_of (?h p)"
    from done_stays nd have ndp: "state (?h p) \<noteq> Done" by blast
    from moved[OF qm] have qc: "q \<in> set ?cs" "wants ?n ?h ?aisle lm q = ?c"
      using same ps by simp_all
    from col pq(2) have "state (?h q) \<in> {Queue, Walking, Looking_bin} \<longrightarrow> x (?h q) = AISLE_COL"
      by (simp add: in_aisle_column_def list_all_iff)
    from wants_free[OF qc(2) _ this] qm same ps have "free_cell ?h ?aisle lm ?c" by simp
    moreover have "find_passenger_at (fst ?c) (snd ?c) ?h ?aisle \<noteq> None"
      using pq(1) ndp by (auto simp: find_passenger_at_None_iff pos_of_def)
    ultimately have "lm_get lm ?c" by (simp add: free_cell_def)
    with lm obtain r where r: "r \<in> set ?cs" "pos_of (?h r) = ?c"
      "wants ?n ?h ?aisle Map.empty r \<noteq> ?c" by blast
    from r(2,3) have ndr: "state (?h r) \<noteq> Done" using wants_done[of ?h r] by auto
    from y0 ps have yp: "0 \<le> y (?h p)" by (simp add: pos_of_def)
    from r(1) cs_sub have ra: "r \<in> set ?aisle" by blast
    have "p = r"
    proof (rule ccontr)
      assume "p \<noteq> r"
      from no_two_on_cellD[OF inv pq(1) ra this ndp ndr yp] r(2) show False by simp
    qed
    with r have pc: "p \<in> set ?cs" and w0: "wants ?n ?h ?aisle Map.empty p \<noteq> pos_of (?h p)" by auto
    from wants_mono[OF w0, of lm] w0 have "wants ?n ?h ?aisle lm p \<noteq> pos_of (?h p)" by simp
    from applied[OF pc this] this ps show False by simp
  qed
  have "p = q \<or> state (?h' p) = Done \<or> state (?h' q) = Done \<or> y (?h' p) < 0 \<or>
        pos_of (?h' p) \<noteq> pos_of (?h' q)"
    if pq: "p \<in> set ?aisle" "q \<in> set ?aisle" for p q
  proof (rule ccontr)
    assume "\<not> ?thesis"
    then have neq: "p \<noteq> q" and nd: "state (?h' p) \<noteq> Done" "state (?h' q) \<noteq> Done"
      and y0: "0 \<le> y (?h' p)" and same: "pos_of (?h' p) = pos_of (?h' q)" by auto
    from y0 same have y0q: "0 \<le> y (?h' q)" by (simp add: pos_of_def)
    consider (none) "pos_of (?h' p) = pos_of (?h p)" "pos_of (?h' q) = pos_of (?h q)"
      | (q) "pos_of (?h' p) = pos_of (?h p)" "pos_of (?h' q) \<noteq> pos_of (?h q)"
      | (p) "pos_of (?h' p) \<noteq> pos_of (?h p)" "pos_of (?h' q) = pos_of (?h q)"
      | (both) "pos_of (?h' p) \<noteq> pos_of (?h p)" "pos_of (?h' q) \<noteq> pos_of (?h q)"
      by blast
    then show False
    proof cases
      case none
      from done_stays nd have "state (?h p) \<noteq> Done" "state (?h q) \<noteq> Done" by blast+
      moreover from y0 none(1) have "0 \<le> y (?h p)" by (simp add: pos_of_def)
      moreover from same none have "pos_of (?h p) = pos_of (?h q)" by simp
      ultimately show False using no_two_on_cellD[OF inv pq neq] by simp
    next
      case q
      from not_onto[OF pq nd(1) y0 same q] show False .
    next
      case p
      from not_onto[OF pq(2,1) nd(2) y0q same[symmetric] p(2,1)] show False .
    next
      case both
      have wp: "p = winner_of h2 (targets fp (pos_of (?h' p)))"
        using moved[OF both(1)] by (elim conjE)
      have wq: "q = winner_of h2 (targets fp (pos_of (?h' q)))"
        using moved[OF both(2)] by (elim conjE)
      from wp have "p = winner_of h2 (targets fp (pos_of (?h' q)))" unfolding same .
      from this wq[symmetric] have "p = q" by (rule trans)
      with neq show False by contradiction
    qed
  qed
  then show ?thesis
    unfolding aisle' by (simp add: no_two_on_cell_def list_all_iff)
qed


text \<open>Six rows and four passengers with one bag each: one bound for row 5, two for the
  seats C and A of row 0, one for row 1.\<close>

definition crowded :: sim where
  "crowded =
     Simulation_init 6
       [Passenger_init 5 LA 1 0 False, Passenger_init 0 LC 1 1 False,
        Passenger_init 0 LA 1 2 False, Passenger_init 1 LA 1 3 False]"

text \<open>
  Claim C1, as stated, fails on the run of \<open>crowded\<close>. After tick 4 the passengers 2
  (move_to_seat) and 3 (walking), neither of them done, both stand on the aisle cell
  (0, 3): passenger 2 proposed to move to (0, 2), lost that cell to the seated
  passenger 1, who was still in the active list, and was held back, while passenger 3
  had been allowed onto its cell. After tick 5 passenger 2 stands on the seat cell
  (0, 2) together with the seated passenger 1: \<^verbatim>\<open>find_passenger_at\<close> does not report a
  done passenger off the aisle.
\<close>

theorem two_agents_on_one_cell:
  "(case ticks 4 crowded of
      Inl e \<Rightarrow> False
    | Inr s \<Rightarrow> pos_of (heap s 2) = (0, 3) \<and> state (heap s 2) = Move_to_seat \<and>
               pos_of (heap s 3) = (0, 3) \<and> state (heap s 3) = Walking) \<and>
   (case ticks 5 crowded of
      Inl e \<Rightarrow> False
    | Inr s \<Rightarrow> pos_of (heap s 1) = (0, 2) \<and> state (heap s 1) = Done \<and>
               pos_of (heap s 2) = (0, 2) \<and> state (heap s 2) = Move_to_seat)"
  by code_simp

theorem do_substep_keeps_cells_apart_witness:
  "(case ticks 2 crowded of
      Inl e \<Rightarrow> False
    | Inr s \<Rightarrow>
        (case do_substep s {} of
           Inl e \<Rightarrow> False
         | Inr (b, s', m') \<Rightarrow>
             no_two_on_cell (heap s) (passengers_in_aisle s) \<and>
             no_two_on_cell (heap s') (passengers_in_aisle s') \<and>
             pos_of (heap s 0) = (1, 3) \<and> pos_of (heap s' 0) = (2, 3) \<and>
             pos_of (heap s' 1) = (0, 3)))"
proof -
  have ev: "(case ticks 2 crowded of
      Inl e \<Rightarrow> False
    | Inr s \<Rightarrow>
        (case do_substep s {} of
           Inl e \<Rightarrow> False
         | Inr (b, s', m') \<Rightarrow>
             (case final_proposals s {} of
                Inl e \<Rightarrow> False
              | Inr (fp, pl2, h2) \<Rightarrow>
                  distinct (passengers_in_aisle s) \<and>
                  in_aisle_column (heap s) (passengers_in_aisle s) \<and>
                  no_two_on_cell (heap s) (passengers_in_aisle s) \<and>
                  every_move_applied (heap s) fp (heap s') \<and>
                  pos_of (heap s 0) = (1, 3) \<and> pos_of (heap s' 0) = (2, 3) \<and>
                  pos_of (heap s' 1) = (0, 3))))"
    by code_simp
  then obtain s b s' m' fp pl2 h2 where
    t: "ticks 2 crowded = Inr s" and d: "do_substep s {} = Inr (b, s', m')" and
    f: "final_proposals s {} = Inr (fp, pl2, h2)" and
    h: "distinct (passengers_in_aisle s)" "in_aisle_column (heap s) (passengers_in_aisle s)"
       "no_two_on_cell (heap s) (passengers_in_aisle s)" "every_move_applied (heap s) fp (heap s')" and
    r: "pos_of (heap s 0) = (1, 3)" "pos_of (heap s' 0) = (2, 3)" "pos_of (heap s' 1) = (0, 3)"
    by (auto split: sum.splits)
  from do_substep_keeps_cells_apart[OF h(1) f d h(2,3,4)]
  have "no_two_on_cell (heap s') (passengers_in_aisle s')" .
  with t d h(3) r show ?thesis by simp
qed

end
